theory Spec2Isabelle
  imports Main "HOL-Library.Sublist" "HOL-Library.List_Lexorder" "HOL-Library.AList"
    "HOL-Library.Multiset"
begin

section \<open>Text: Python \<open>str\<close> as a list of code points\<close>

text \<open>
  A Python \<open>str\<close> is a sequence of Unicode code points, and \<open>len\<close>, slicing and the
  \<open>re\<close> module all count code points. A text is therefore a list of natural numbers;
  \<open>ascii\<close> turns an Isabelle string literal into such a list.
\<close>

type_synonym str = "nat list"

definition ascii :: "string \<Rightarrow> str" where
  "ascii s = map of_char s"

text \<open>
  What the interpreter's Unicode tables say about code points from 128 on is not part
  of the repository. It is a parameter of every operation that consults the tables; the
  ASCII range is written out.
  \<^item> \<open>nd c\<close>: \<open>c\<close> is a decimal digit (what \<open>\d\<close> accepts);
  \<^item> \<open>ws c\<close>: \<open>c\<close> is white space (what \<open>\s\<close> and \<open>str.strip\<close> accept);
  \<^item> \<open>ci p c\<close>: under \<open>re.IGNORECASE\<close> the text character \<open>c\<close> matches the pattern
    letter \<open>p\<close>;
  \<^item> \<open>lower_str s\<close>: \<open>s.lower()\<close> for a string that is not pure ASCII.
\<close>

record ucd =
  nd :: "nat \<Rightarrow> bool"
  ws :: "nat \<Rightarrow> bool"
  ci :: "nat \<Rightarrow> nat \<Rightarrow> bool"
  lower_str :: "str \<Rightarrow> str"

definition ascii_only :: ucd where
  "ascii_only = \<lparr>nd = (\<lambda>c. False), ws = (\<lambda>c. False), ci = (\<lambda>p c. False), lower_str = (\<lambda>s. s)\<rparr>"

definition is_decimal :: "ucd \<Rightarrow> nat \<Rightarrow> bool" where
  "is_decimal U c = (if c < 128 then 48 \<le> c \<and> c \<le> 57 else nd U c)"

definition is_space :: "ucd \<Rightarrow> nat \<Rightarrow> bool" where
  "is_space U c = (if c < 128 then (9 \<le> c \<and> c \<le> 13) \<or> (28 \<le> c \<and> c \<le> 32) else ws U c)"

definition ascii_letter :: "nat \<Rightarrow> bool" where
  "ascii_letter c = ((65 \<le> c \<and> c \<le> 90) \<or> (97 \<le> c \<and> c \<le> 122))"

definition ascii_lower :: "nat \<Rightarrow> nat" where
  "ascii_lower c = (if 65 \<le> c \<and> c \<le> 90 then c + 32 else c)"

section \<open>The regular expressions of the program\<close>

text \<open>
  The patterns of \<open>final_app.py\<close> use literals, the dot, bracketed classes with
  \<open>\d\<close> and \<open>\s\<close>, alternation, capturing groups, a one-character look-behind and
  greedy or lazy repetition of a single character. The matcher below is the
  backtracking search of \<open>re\<close>: the alternatives of a pattern are tried in the
  engine's order, each followed by the rest of the match, and the first alternative
  whose rest succeeds is the answer.
\<close>

datatype item = IChr nat | IDigit | ISpace

datatype atom = Chr nat | AnyChar | In "item list" | NotIn "item list"

datatype regex =
    Eps
  | Atom atom
  | Seq regex regex
  | Alt regex regex
  | Rep bool nat "nat option" atom
  | Group nat regex
  | Behind atom

text \<open>
  A pattern literal under \<open>re.IGNORECASE\<close>: the compiler keeps a character without
  case (every literal of the program that is not an ASCII letter, U+20B9 included) as
  an exact literal, and compares a letter through lower case.
\<close>

definition lit_ok :: "ucd \<Rightarrow> bool \<Rightarrow> nat \<Rightarrow> nat \<Rightarrow> bool" where
  "lit_ok U ic p c =
     (if ic \<and> ascii_letter p
      then (if c < 128 then ascii_lower c = ascii_lower p else ci U p c)
      else c = p)"

fun item_ok :: "ucd \<Rightarrow> bool \<Rightarrow> item \<Rightarrow> nat \<Rightarrow> bool" where
  "item_ok U ic (IChr p) c = lit_ok U ic p c"
| "item_ok U ic IDigit c = is_decimal U c"
| "item_ok U ic ISpace c = is_space U c"

fun atom_ok :: "ucd \<Rightarrow> bool \<Rightarrow> atom \<Rightarrow> nat \<Rightarrow> bool" where
  "atom_ok U ic (Chr p) c = lit_ok U ic p c"
| "atom_ok U ic AnyChar c = (c \<noteq> 10)"
| "atom_ok U ic (In items) c = list_ex (\<lambda>i. item_ok U ic i c) items"
| "atom_ok U ic (NotIn items) c = (\<not> list_ex (\<lambda>i. item_ok U ic i c) items)"

text \<open>
  A cursor is a position in the subject: the characters before it (nearest first) and
  the characters from it on.
\<close>

type_synonym cursor = "str \<times> str"

type_synonym groups = "nat \<rightharpoonup> str"

text \<open>
  Repetition of one character, \<open>a{m,M}\<close> (\<open>M = None\<close>: unbounded). A greedy
  repetition first tries to take one more character and only then to stop here; a
  lazy one tries to stop first. \<open>k\<close> is the rest of the match: a branch whose rest
  fails is backtracked.
\<close>

fun rep :: "ucd \<Rightarrow> bool \<Rightarrow> bool \<Rightarrow> nat \<Rightarrow> nat option \<Rightarrow> atom \<Rightarrow> str \<Rightarrow> str \<Rightarrow>
    (cursor \<Rightarrow> 'r option) \<Rightarrow> 'r option" where
  "rep U ic greedy m M a b [] k = (if m = 0 then k (b, []) else None)"
| "rep U ic greedy m M a b (x # s) k =
     (if greedy then
        (case (if M \<noteq> Some 0 \<and> atom_ok U ic a x
               then rep U ic greedy (m - 1) (map_option (\<lambda>n. n - 1) M) a (x # b) s k
               else None) of
           Some res \<Rightarrow> Some res
         | None \<Rightarrow> if m = 0 then k (b, x # s) else None)
      else
        (case (if m = 0 then k (b, x # s) else None) of
           Some res \<Rightarrow> Some res
         | None \<Rightarrow>
             if M \<noteq> Some 0 \<and> atom_ok U ic a x
             then rep U ic greedy (m - 1) (map_option (\<lambda>n. n - 1) M) a (x # b) s k
             else None))"

definition consumed :: "cursor \<Rightarrow> cursor \<Rightarrow> str" where
  "consumed c c' = take (length (snd c) - length (snd c')) (snd c)"

text \<open>
  \<open>ms U ic r c g k\<close>: match \<open>r\<close> at cursor \<open>c\<close> with the groups \<open>g\<close> captured so far,
  then continue with \<open>k\<close>; \<open>None\<close> when every alternative fails. \<open>ic\<close> is
  \<open>re.IGNORECASE\<close>.
\<close>

fun ms :: "ucd \<Rightarrow> bool \<Rightarrow> regex \<Rightarrow> cursor \<Rightarrow> groups \<Rightarrow> (cursor \<Rightarrow> groups \<Rightarrow> 'r option) \<Rightarrow> 'r option" where
  "ms U ic Eps c g k = k c g"
| "ms U ic (Atom a) (b, s) g k =
     (case s of [] \<Rightarrow> None | x # s' \<Rightarrow> if atom_ok U ic a x then k (x # b, s') g else None)"
| "ms U ic (Seq r1 r2) c g k = ms U ic r1 c g (\<lambda>c' g'. ms U ic r2 c' g' k)"
| "ms U ic (Alt r1 r2) c g k =
     (case ms U ic r1 c g k of Some res \<Rightarrow> Some res | None \<Rightarrow> ms U ic r2 c g k)"
| "ms U ic (Rep greedy m M a) (b, s) g k = rep U ic greedy m M a b s (\<lambda>c'. k c' g)"
| "ms U ic (Group n r) c g k = ms U ic r c g (\<lambda>c' g'. k c' (g'(n \<mapsto> consumed c c')))"
| "ms U ic (Behind a) (b, s) g k =
     (case b of [] \<Rightarrow> None | p # _ \<Rightarrow> if atom_ok U ic a p then k (b, s) g else None)"

text \<open>
  \<open>re.search\<close>: the first start position, from the left, at which the pattern matches;
  group 0 is the whole match.
\<close>

fun search_from :: "ucd \<Rightarrow> bool \<Rightarrow> regex \<Rightarrow> str \<Rightarrow> str \<Rightarrow> (cursor \<times> groups) option" where
  "search_from U ic r b [] = ms U ic (Group 0 r) (b, []) Map.empty (\<lambda>c g. Some (c, g))"
| "search_from U ic r b (x # s) =
     (case ms U ic (Group 0 r) (b, x # s) Map.empty (\<lambda>c g. Some (c, g)) of
        Some st \<Rightarrow> Some st
      | None \<Rightarrow> search_from U ic r (x # b) s)"

definition fmt :: "str option \<Rightarrow> str" where
  "fmt v = (case v of None \<Rightarrow> ascii ''None'' | Some s \<Rightarrow> s)"

definition re_search :: "ucd \<Rightarrow> bool \<Rightarrow> regex \<Rightarrow> str \<Rightarrow> groups option" where
  "re_search U ic r subject = map_option snd (search_from U ic r [] subject)"

section \<open>The patterns of \<open>final_app.py\<close>\<close>

definition lit :: "str \<Rightarrow> regex" where
  "lit s = foldr (\<lambda>c r. Seq (Atom (Chr c)) r) s Eps"

definition seqs :: "regex list \<Rightarrow> regex" where
  "seqs rs = foldr Seq rs Eps"

definition opt :: "regex \<Rightarrow> regex" where
  "opt r = Alt r Eps"

text \<open>\<open>(U+20B9|Rs\.?|INR)\<close>, U+20B9 (the rupee sign) being the code point 8377.\<close>

definition marker_re :: regex where
  "marker_re =
     Alt (Atom (Chr 8377)) (Alt (Seq (lit (ascii ''Rs'')) (opt (Atom (Chr 46)))) (lit (ascii ''INR'')))"

text \<open>\<open>(U+20B9|Rs\.?|INR)\s*([\d,\.]+)\<close>\<close>

definition amount_re :: regex where
  "amount_re = seqs [Group 1 marker_re, Rep True 0 None (In [ISpace]),
                     Group 2 (Rep True 1 None (In [IDigit, IChr 44, IChr 46]))]"

text \<open>\<open>(?:EMD|Earnest Money Deposit).*?(U+20B9|Rs\.?|INR)\s*([\d,\.]+)\<close>\<close>

definition emd_re :: regex where
  "emd_re = seqs [Alt (lit (ascii ''EMD'')) (lit (ascii ''Earnest Money Deposit'')),
                  Rep False 0 None AnyChar, amount_re]"

text \<open>\<open>\d{1,2}[/-]\d{1,2}[/-]\d{2,4}\<close>\<close>

definition date_token_re :: regex where
  "date_token_re = seqs [Rep True 1 (Some 2) (In [IDigit]), Atom (In [IChr 47, IChr 45]),
                         Rep True 1 (Some 2) (In [IDigit]), Atom (In [IChr 47, IChr 45]),
                         Rep True 2 (Some 4) (In [IDigit])]"

text \<open>\<open>(?:submission(?: date)?|due date|closing date)[^\d]*(\d{1,2}[/-]\d{1,2}[/-]\d{2,4})\<close>\<close>

definition due_re :: regex where
  "due_re = seqs [Alt (Seq (lit (ascii ''submission'')) (opt (lit (ascii '' date''))))
                   (Alt (lit (ascii ''due date'')) (lit (ascii ''closing date''))),
                  Rep True 0 None (NotIn [IDigit]), Group 1 date_token_re]"

text \<open>\<open>(?<=[.!?])\s+\<close>\<close>

definition sentence_sep_re :: regex where
  "sentence_sep_re = Seq (Behind (In [IChr 46, IChr 33, IChr 63])) (Rep True 1 None (In [ISpace]))"

text \<open>\<open><[^>]+>\<close>\<close>

definition tag_re :: regex where
  "tag_re = seqs [Atom (Chr 60), Rep True 1 None (NotIn [IChr 62]), Atom (Chr 62)]"

section \<open>String operations\<close>

text \<open>\<open>sep.join(xs)\<close>\<close>

fun join :: "str \<Rightarrow> str list \<Rightarrow> str" where
  "join sep [] = []"
| "join sep [x] = x"
| "join sep (x # y # ys) = x @ sep @ join sep (y # ys)"

text \<open>\<open>s.split(c)\<close> for a one-character separator: never the empty list.\<close>

fun split_chr :: "nat \<Rightarrow> str \<Rightarrow> str list" where
  "split_chr c [] = [[]]"
| "split_chr c (x # s) =
     (if x = c then [] # split_chr c s
      else (case split_chr c s of [] \<Rightarrow> [[x]] | p # ps \<Rightarrow> (x # p) # ps))"

text \<open>\<open>s.strip()\<close>\<close>

definition strip :: "ucd \<Rightarrow> str \<Rightarrow> str" where
  "strip U s = rev (dropWhile (is_space U) (rev (dropWhile (is_space U) s)))"

text \<open>\<open>s.lower()\<close>\<close>

definition str_lower :: "ucd \<Rightarrow> str \<Rightarrow> str" where
  "str_lower U s = (if list_all (\<lambda>c. c < 128) s then map ascii_lower s else lower_str U s)"

text \<open>
  \<open>re.split(pattern, s)\<close> for a pattern without capturing groups: the pieces of the
  subject between successive matches. \<open>b\<close> is the text before the current position,
  \<open>s\<close> the text from it on. The engine has a rule of its own for a match that is
  empty; the two patterns this is used with cannot match the empty string, and the
  function stops at such a match.
\<close>

fun re_split_from :: "ucd \<Rightarrow> bool \<Rightarrow> regex \<Rightarrow> str \<Rightarrow> str \<Rightarrow> str list" where
  "re_split_from U ic r b s =
     (case search_from U ic r b s of
        None \<Rightarrow> [s]
      | Some ((b', s'), g) \<Rightarrow>
          if length s' < length s
          then take (length s - length s' - length (fmt (g 0))) s # re_split_from U ic r b' s'
          else [s])"

definition re_split :: "ucd \<Rightarrow> bool \<Rightarrow> regex \<Rightarrow> str \<Rightarrow> str list" where
  "re_split U ic r s = re_split_from U ic r [] s"

text \<open>\<open>re.sub(pattern, '', s)\<close>: what is left when every match is cut out.\<close>

definition re_sub_empty :: "ucd \<Rightarrow> bool \<Rightarrow> regex \<Rightarrow> str \<Rightarrow> str" where
  "re_sub_empty U ic r s = concat (re_split U ic r s)"

section \<open>\<open>simple_summary\<close> and \<open>extract_fields\<close>\<close>

definition simple_summary :: "ucd \<Rightarrow> str \<Rightarrow> str" where
  "simple_summary U txt =
     (let sentences = re_split U False sentence_sep_re (strip U txt)
      in join (ascii '' '') (take 3 sentences))"

text \<open>
  The dictionary \<open>fields\<close> has the three keys \<open>emd\<close>, \<open>due_date\<close> and \<open>eligibility\<close>.
  \<open>fmt\<close> is how an f-string prints a group: a group that took no part in the match
  is \<open>None\<close>.
\<close>

record fields =
  emd :: str
  due_date :: str
  eligibility :: str

definition extract_fields :: "ucd \<Rightarrow> str \<Rightarrow> fields" where
  "extract_fields U txt =
     \<lparr>emd =
        (case re_search U True emd_re txt of
           Some m \<Rightarrow> fmt (m 1) @ ascii '' '' @ fmt (m 2)
         | None \<Rightarrow>
             (case re_search U False amount_re txt of
                Some m \<Rightarrow> fmt (m 1) @ ascii '' '' @ fmt (m 2)
              | None \<Rightarrow> [])),
      due_date =
        (case re_search U True due_re txt of
           Some m \<Rightarrow> fmt (m 1)
         | None \<Rightarrow>
             (case re_search U False date_token_re txt of
                Some m \<Rightarrow> fmt (m 0)
              | None \<Rightarrow> [])),
      eligibility = (if length txt > 200 then take 200 txt @ ascii ''...'' else txt)\<rparr>"

section \<open>The record store and its JSON snapshot\<close>

text \<open>
  A tender is the dictionary built by \<open>process_file\<close>; its keys \<open>id\<close>, \<open>filename\<close>,
  \<open>path\<close>, \<open>text\<close>, \<open>table_rows\<close>, \<open>summary\<close>, \<open>emd\<close>, \<open>due_date\<close>, \<open>eligibility\<close> and
  \<open>uploaded_at\<close> are the fields below, in this order.
\<close>

record tender =
  t_id :: str
  t_filename :: str
  t_path :: str
  t_text :: str
  table_rows :: "str list list"
  summary :: str
  t_emd :: str
  t_due_date :: str
  t_eligibility :: str
  uploaded_at :: str

text \<open>
  The values \<open>json.dump\<close> writes and \<open>json.load\<close> returns. The two subsections below
  follow the encoder and the decoder of the interpreter's \<open>json\<close> module; a number is
  kept as the text of its literal.
\<close>

datatype json = JNull | JBool bool | JNum str | JStr str | JList "json list" | JDict "(str \<times> json) list"

definition tender_dict :: "tender \<Rightarrow> json" where
  "tender_dict t = JDict
     [(ascii ''id'', JStr (t_id t)),
      (ascii ''filename'', JStr (t_filename t)),
      (ascii ''path'', JStr (t_path t)),
      (ascii ''text'', JStr (t_text t)),
      (ascii ''table_rows'', JList (map (\<lambda>row. JList (map JStr row)) (table_rows t))),
      (ascii ''summary'', JStr (summary t)),
      (ascii ''emd'', JStr (t_emd t)),
      (ascii ''due_date'', JStr (t_due_date t)),
      (ascii ''eligibility'', JStr (t_eligibility t)),
      (ascii ''uploaded_at'', JStr (uploaded_at t))]"

definition tenders_dict :: "(str \<times> tender) list \<Rightarrow> json" where
  "tenders_dict ts = JDict (map (\<lambda>(k, t). (k, tender_dict t)) ts)"

subsection \<open>\<open>json.dump(obj, f, ensure_ascii=False, indent=2)\<close>\<close>

definition hex_digit :: "nat \<Rightarrow> nat" where
  "hex_digit n = (if n < 10 then 48 + n else 87 + n)"

text \<open>
  One character of a string: the quote, the backslash and the control characters are
  escaped, everything else is written as it is (\<open>ensure_ascii=False\<close>).
\<close>

definition escape_chr :: "nat \<Rightarrow> str" where
  "escape_chr c =
     (if c = 92 then [92, 92]
      else if c = 34 then [92, 34]
      else if c = 8 then [92, 98]
      else if c = 12 then [92, 102]
      else if c = 10 then [92, 110]
      else if c = 13 then [92, 114]
      else if c = 9 then [92, 116]
      else if c < 32 then [92, 117, 48, 48, hex_digit (c div 16), hex_digit (c mod 16)]
      else [c])"

definition encode_basestring :: "str \<Rightarrow> str" where
  "encode_basestring s = [34] @ concat (map escape_chr s) @ [34]"

definition newline_indent :: "nat \<Rightarrow> str" where
  "newline_indent level = 10 # replicate (2 * level) 32"

fun iterencode :: "nat \<Rightarrow> json \<Rightarrow> str" where
  "iterencode level JNull = ascii ''null''"
| "iterencode level (JBool b) = (if b then ascii ''true'' else ascii ''false'')"
| "iterencode level (JNum n) = n"
| "iterencode level (JStr s) = encode_basestring s"
| "iterencode level (JList xs) =
     (if xs = [] then ascii ''[]''
      else [91] @ newline_indent (Suc level)
           @ join (44 # newline_indent (Suc level)) (map (iterencode (Suc level)) xs)
           @ newline_indent level @ [93])"
| "iterencode level (JDict kvs) =
     (if kvs = [] then ascii ''{}''
      else [123] @ newline_indent (Suc level)
           @ join (44 # newline_indent (Suc level))
               (map (\<lambda>kv. encode_basestring (fst kv) @ ascii '': '' @ iterencode (Suc level) (snd kv)) kvs)
           @ newline_indent level @ [125])"

definition json_dumps :: "json \<Rightarrow> str" where
  "json_dumps v = iterencode 0 v"

text \<open>
  \<open>json.dump\<close> hands this text to the file in the pieces in which the encoder yields
  it, one \<open>write\<close> for each. In a list, the text that opens the list or separates two
  items is one piece with an item that is not itself a list or a dictionary; in a
  dictionary, the opening brace, the indentation, a separator, a key, the colon and a
  value that is a string are pieces of their own.
\<close>

fun is_container :: "json \<Rightarrow> bool" where
  "is_container (JList xs) = True"
| "is_container (JDict kvs) = True"
| "is_container v = False"

definition with_buf :: "str \<Rightarrow> json \<Rightarrow> str list \<Rightarrow> str list" where
  "with_buf buf v cs = (if is_container v then buf # cs else [buf @ concat cs])"

fun iterencode_chunks :: "nat \<Rightarrow> json \<Rightarrow> str list" where
  "iterencode_chunks level JNull = [ascii ''null'']"
| "iterencode_chunks level (JBool b) = [if b then ascii ''true'' else ascii ''false'']"
| "iterencode_chunks level (JNum n) = [n]"
| "iterencode_chunks level (JStr s) = [encode_basestring s]"
| "iterencode_chunks level (JList []) = [ascii ''[]'']"
| "iterencode_chunks level (JList (x # xs)) =
     with_buf ([91] @ newline_indent (Suc level)) x (iterencode_chunks (Suc level) x)
     @ concat (map (\<lambda>v. with_buf (44 # newline_indent (Suc level)) v (iterencode_chunks (Suc level) v)) xs)
     @ [newline_indent level, [93]]"
| "iterencode_chunks level (JDict []) = [ascii ''{}'']"
| "iterencode_chunks level (JDict (kv # kvs)) =
     [[123], newline_indent (Suc level)]
     @ [encode_basestring (fst kv), ascii '': ''] @ iterencode_chunks (Suc level) (snd kv)
     @ concat (map (\<lambda>kv. [44 # newline_indent (Suc level), encode_basestring (fst kv), ascii '': '']
                           @ iterencode_chunks (Suc level) (snd kv)) kvs)
     @ [newline_indent level, [125]]"

text \<open>
  The file is opened with \<open>encoding='utf-8'\<close>: a piece that holds a surrogate code point
  (U+D800 to U+DFFF) cannot be encoded, and writing it raises \<open>UnicodeEncodeError\<close>.
\<close>

definition encodable :: "str \<Rightarrow> bool" where
  "encodable s = list_all (\<lambda>c. c < 55296 \<or> 57343 < c) s"

subsection \<open>\<open>json.load(f)\<close>\<close>

definition json_ws :: "nat \<Rightarrow> bool" where
  "json_ws c = (c = 32 \<or> c = 9 \<or> c = 10 \<or> c = 13)"

definition skip_ws :: "str \<Rightarrow> str" where
  "skip_ws s = dropWhile json_ws s"

definition hex_val :: "nat \<Rightarrow> nat option" where
  "hex_val c =
     (if 48 \<le> c \<and> c \<le> 57 then Some (c - 48)
      else if 97 \<le> c \<and> c \<le> 102 then Some (c - 87)
      else if 65 \<le> c \<and> c \<le> 70 then Some (c - 55)
      else None)"

definition decode_uXXXX :: "nat \<Rightarrow> nat \<Rightarrow> nat \<Rightarrow> nat \<Rightarrow> nat option" where
  "decode_uXXXX a b c d =
     (case (hex_val a, hex_val b, hex_val c, hex_val d) of
        (Some x, Some y, Some z, Some w) \<Rightarrow> Some (((x * 16 + y) * 16 + z) * 16 + w)
      | _ \<Rightarrow> None)"

definition backslash :: "nat \<Rightarrow> nat option" where
  "backslash e =
     (if e = 34 then Some 34 else if e = 92 then Some 92 else if e = 47 then Some 47
      else if e = 98 then Some 8 else if e = 102 then Some 12 else if e = 110 then Some 10
      else if e = 114 then Some 13 else if e = 116 then Some 9 else None)"

definition cons_chr :: "nat \<Rightarrow> (str \<times> str) option \<Rightarrow> (str \<times> str) option" where
  "cons_chr c res = map_option (\<lambda>(t, r). (c # t, r)) res"

text \<open>
  After \<open>\uXXXX\<close> with a high surrogate: a following \<open>\uYYYY\<close> with a low surrogate
  is joined with it. The result is the character and how many more characters of the
  input it took.
\<close>

definition join_surrogates :: "nat \<Rightarrow> str \<Rightarrow> (nat \<times> nat) option" where
  "join_surrogates uni s =
     (if 55296 \<le> uni \<and> uni \<le> 56319 \<and> 6 < length s \<and> take 2 s = [92, 117] then
        (case decode_uXXXX (s ! 2) (s ! 3) (s ! 4) (s ! 5) of
           None \<Rightarrow> None
         | Some uni2 \<Rightarrow>
             if 56320 \<le> uni2 \<and> uni2 \<le> 57343
             then Some (65536 + ((uni - 55296) * 1024 + (uni2 - 56320)), 6)
             else Some (uni, 0))
      else Some (uni, 0))"

text \<open>
  \<open>scanstring\<close> (strict): from just after the opening quote to the closing quote;
  the string read and the rest of the input. \<open>None\<close>: the decoder raises.
\<close>

fun scanstring :: "str \<Rightarrow> (str \<times> str) option" where
  "scanstring [] = None"
| "scanstring (c # s) =
     (if c = 34 then Some ([], s)
      else if c = 92 then
        (case s of
           [] \<Rightarrow> None
         | e # s1 \<Rightarrow>
             if e = 117 then
               (if length s1 < 4 then None
                else
                  (case decode_uXXXX (s1 ! 0) (s1 ! 1) (s1 ! 2) (s1 ! 3) of
                     None \<Rightarrow> None
                   | Some uni \<Rightarrow>
                       (case join_surrogates uni (drop 4 s1) of
                          None \<Rightarrow> None
                        | Some (ch, k) \<Rightarrow> cons_chr ch (scanstring (drop (4 + k) s1)))))
             else (case backslash e of None \<Rightarrow> None | Some ch \<Rightarrow> cons_chr ch (scanstring s1)))
      else if c < 32 then None
      else cons_chr c (scanstring s))"

definition digit09 :: "nat \<Rightarrow> bool" where
  "digit09 c = (48 \<le> c \<and> c \<le> 57)"

text \<open>A number literal at the head of the input, and the rest.\<close>

definition match_number :: "str \<Rightarrow> (str \<times> str) option" where
  "match_number s =
     (let (sign, s1) = (case s of [] \<Rightarrow> ([], s) | c # r \<Rightarrow> if c = 45 then ([c], r) else ([], s))
      in case s1 of
           [] \<Rightarrow> None
         | d # r1 \<Rightarrow>
             if digit09 d then
               (let (ip, r2) = (if d = 48 then ([d], r1)
                                else (d # takeWhile digit09 r1, dropWhile digit09 r1));
                    (fp, r3) = (case r2 of
                                  p # q # r \<Rightarrow>
                                    if p = 46 \<and> digit09 q
                                    then (p # q # takeWhile digit09 r, dropWhile digit09 r)
                                    else ([], r2)
                                | _ \<Rightarrow> ([], r2));
                    (ep, r4) = (case r3 of
                                  [] \<Rightarrow> ([], r3)
                                | e # r \<Rightarrow>
                                    if e = 101 \<or> e = 69 then
                                      (let (sg, r') = (case r of
                                                         [] \<Rightarrow> ([], r)
                                                       | x # y \<Rightarrow> if x = 45 \<or> x = 43 then ([x], y) else ([], r))
                                       in if takeWhile digit09 r' = [] then ([], r3)
                                          else (e # sg @ takeWhile digit09 r', dropWhile digit09 r'))
                                    else ([], r3))
                in Some (sign @ ip @ fp @ ep, r4))
             else None)"

definition literal :: "str \<Rightarrow> (json \<times> str) option" where
  "literal s =
     (if take 4 s = ascii ''null'' then Some (JNull, drop 4 s)
      else if take 4 s = ascii ''true'' then Some (JBool True, drop 4 s)
      else if take 5 s = ascii ''false'' then Some (JBool False, drop 5 s)
      else if take 3 s = ascii ''NaN'' then Some (JNum (take 3 s), drop 3 s)
      else if take 8 s = ascii ''Infinity'' then Some (JNum (take 8 s), drop 8 s)
      else if take 9 s = ascii ''-Infinity'' then Some (JNum (take 9 s), drop 9 s)
      else map_option (\<lambda>(n, r). (JNum n, r)) (match_number s))"

text \<open>\<open>dict(pairs)\<close>: a later pair with a key already present replaces its value in place.\<close>

definition dict_of :: "('k \<times> 'v) list \<Rightarrow> ('k \<times> 'v) list" where
  "dict_of pairs = foldl (\<lambda>d kv. AList.update (fst kv) (snd kv) d) [] pairs"

text \<open>
  The scanner. The first argument bounds the number of nested calls; \<open>json_loads\<close>
  starts it above the length of its input. \<open>parse_array\<close> stands at the next element,
  \<open>parse_object\<close> just after the opening quote of the next key; both carry what they
  have read so far.
\<close>

fun scan_once :: "nat \<Rightarrow> str \<Rightarrow> (json \<times> str) option"
  and parse_array :: "nat \<Rightarrow> json list \<Rightarrow> str \<Rightarrow> (json \<times> str) option"
  and parse_object :: "nat \<Rightarrow> (str \<times> json) list \<Rightarrow> str \<Rightarrow> (json \<times> str) option" where
  "scan_once 0 s = None"
| "scan_once (Suc n) [] = None"
| "scan_once (Suc n) (c # s) =
     (if c = 34 then map_option (\<lambda>(t, r). (JStr t, r)) (scanstring s)
      else if c = 123 then
        (case skip_ws s of
           [] \<Rightarrow> None
         | d # s' \<Rightarrow>
             if d = 125 then Some (JDict [], s')
             else if d = 34 then parse_object n [] s'
             else None)
      else if c = 91 then
        (case skip_ws s of
           [] \<Rightarrow> None
         | d # s' \<Rightarrow> if d = 93 then Some (JList [], s') else parse_array n [] (d # s'))
      else literal (c # s))"
| "parse_array 0 acc s = None"
| "parse_array (Suc n) acc s =
     (case scan_once n s of
        None \<Rightarrow> None
      | Some (v, r) \<Rightarrow>
          (case skip_ws r of
             [] \<Rightarrow> None
           | d # r' \<Rightarrow>
               if d = 93 then Some (JList (acc @ [v]), r')
               else if d = 44 then parse_array n (acc @ [v]) (skip_ws r')
               else None))"
| "parse_object 0 acc s = None"
| "parse_object (Suc n) acc s =
     (case scanstring s of
        None \<Rightarrow> None
      | Some (key, r) \<Rightarrow>
          (case skip_ws r of
             [] \<Rightarrow> None
           | d # r1 \<Rightarrow>
               if d \<noteq> 58 then None
               else
                 (case scan_once n (skip_ws r1) of
                    None \<Rightarrow> None
                  | Some (v, r2) \<Rightarrow>
                      (case skip_ws r2 of
                         [] \<Rightarrow> None
                       | e # r3 \<Rightarrow>
                           if e = 125 then Some (JDict (dict_of (acc @ [(key, v)])), r3)
                           else if e = 44 then
                             (case skip_ws r3 of
                                [] \<Rightarrow> None
                              | q # r4 \<Rightarrow>
                                  if q = 34 then parse_object n (acc @ [(key, v)]) r4 else None)
                           else None))))"

definition json_loads :: "str \<Rightarrow> json option" where
  "json_loads s =
     (case scan_once (Suc (length s)) (skip_ws s) of
        None \<Rightarrow> None
      | Some (v, r) \<Rightarrow> if skip_ws r = [] then Some v else None)"

subsection \<open>The store\<close>

text \<open>
  The state the program works on: the files under \<open>uploads/\<close>, the global dictionary
  \<open>tenders\<close> (a Python dictionary keeps its keys in insertion order: an association
  list), the contents of \<open>tenders.json\<close> if the file exists, and the extractions that
  were run, in order.
\<close>

datatype call = Pdftotext str | OpenDocx str | LoadWorkbook str

record world =
  uploads :: "str \<rightharpoonup> nat list"
  tenders :: "(str \<times> tender) list"
  data_file :: "str option"
  calls :: "call list"

text \<open>
  An exception that leaves \<open>process_file\<close> or \<open>save_tenders\<close>: neither catches any.
  \<open>OSError\<close> stands for the errors of the operating system other than
  \<open>FileNotFoundError\<close>.
\<close>

datatype error = FileNotFoundError | OSError | ValueError | UnicodeEncodeError

text \<open>
  What the file system does with a request to write a file: it writes it, or the
  request fails with an error and leaves the file as it was (\<open>None\<close>) or with some
  contents.
\<close>

datatype 'a outcome = Succeeds | Fails error "'a option"

text \<open>
  What lies outside the repository: the Unicode tables, the upload directory, what the
  file system does when the upload is written to a path and when a text is written to
  \<open>tenders.json\<close>, and what the three external readers return for the bytes of a file
  (\<open>None\<close>: an exception).
\<close>

record env =
  tables :: ucd
  upload_dir :: str
  upload_write :: "str \<Rightarrow> nat list \<Rightarrow> nat list outcome"
  data_write :: "str \<Rightarrow> str outcome"
  pdftotext_out :: "nat list \<Rightarrow> str option"
  document_xml :: "nat list \<Rightarrow> str option"
  workbook_rows :: "nat list \<Rightarrow> str list list"

record file_storage =
  filename :: str
  stream :: "nat list"

text \<open>
  \<open>save_tenders\<close> (lines 39 to 42). The pieces are written up to the first that cannot
  be encoded; what was written stays in the file when the encoding fails. \<open>Inr ()\<close>:
  the function returns; \<open>Inl\<close>: it raises.
\<close>

definition save_tenders :: "env \<Rightarrow> world \<Rightarrow> (error + unit) \<times> world" where
  "save_tenders E w =
     (let cs = iterencode_chunks 0 (tenders_dict (tenders w));
          written = concat (takeWhile encodable cs)
      in case data_write E written of
           Fails e left \<Rightarrow>
             (Inl e, case left of None \<Rightarrow> w | Some s \<Rightarrow> w\<lparr>data_file := Some s\<rparr>)
         | Succeeds \<Rightarrow>
             (if list_all encodable cs then Inr () else Inl UnicodeEncodeError,
              w\<lparr>data_file := Some written\<rparr>))"

text \<open>Reading a tender back from the dictionary \<open>json.load\<close> returns.\<close>

definition str_of :: "json option \<Rightarrow> str option" where
  "str_of v = (case v of Some (JStr s) \<Rightarrow> Some s | _ \<Rightarrow> None)"

definition strs_of :: "json \<Rightarrow> str list option" where
  "strs_of v = (case v of JList xs \<Rightarrow> those (map (\<lambda>x. str_of (Some x)) xs) | _ \<Rightarrow> None)"

definition rows_of :: "json option \<Rightarrow> str list list option" where
  "rows_of v = (case v of Some (JList xs) \<Rightarrow> those (map strs_of xs) | _ \<Rightarrow> None)"

definition dict_tender :: "json \<Rightarrow> tender option" where
  "dict_tender v =
     (case v of
        JDict d \<Rightarrow>
          (if map fst d = map ascii [''id'', ''filename'', ''path'', ''text'', ''table_rows'',
                ''summary'', ''emd'', ''due_date'', ''eligibility'', ''uploaded_at'']
           then
             (case (str_of (map_of d (ascii ''id'')), str_of (map_of d (ascii ''filename'')),
                    str_of (map_of d (ascii ''path'')), str_of (map_of d (ascii ''text'')),
                    rows_of (map_of d (ascii ''table_rows'')), str_of (map_of d (ascii ''summary'')),
                    str_of (map_of d (ascii ''emd'')), str_of (map_of d (ascii ''due_date'')),
                    str_of (map_of d (ascii ''eligibility'')),
                    str_of (map_of d (ascii ''uploaded_at''))) of
                (Some i, Some f, Some p, Some t, Some r, Some s, Some e, Some d, Some g, Some u) \<Rightarrow>
                  Some \<lparr>t_id = i, t_filename = f, t_path = p, t_text = t, table_rows = r,
                        summary = s, t_emd = e, t_due_date = d, t_eligibility = g, uploaded_at = u\<rparr>
              | _ \<Rightarrow> None)
           else None)
      | _ \<Rightarrow> None)"

definition dict_tenders :: "json \<Rightarrow> (str \<times> tender) list option" where
  "dict_tenders v =
     (case v of
        JDict d \<Rightarrow> those (map (\<lambda>kv. map_option (Pair (fst kv)) (dict_tender (snd kv))) d)
      | _ \<Rightarrow> None)"

text \<open>
  Start of the process (lines 31 to 36): the dictionary is read from \<open>tenders.json\<close>
  when the file exists and is empty otherwise. \<open>None\<close>: \<open>json.load\<close> raises, or the
  file does not hold tenders.
\<close>

definition load_tenders :: "world \<Rightarrow> (str \<times> tender) list option" where
  "load_tenders w =
     (case data_file w of
        None \<Rightarrow> Some []
      | Some s \<Rightarrow> (case json_loads s of None \<Rightarrow> None | Some v \<Rightarrow> dict_tenders v))"

text \<open>\<open>tenders[file_id] = tender; save_tenders()\<close> and \<open>tenders.get(tid)\<close>.\<close>

definition put_tender :: "env \<Rightarrow> tender \<Rightarrow> world \<Rightarrow> (error + unit) \<times> world" where
  "put_tender E t w = save_tenders E (w\<lparr>tenders := AList.update (t_id t) t (tenders w)\<rparr>)"

definition get_tender :: "world \<Rightarrow> str \<Rightarrow> tender option" where
  "get_tender w tid = map_of (tenders w) tid"

section \<open>The format extractors and \<open>process_file\<close>\<close>

definition extract_text_from_pdf :: "env \<Rightarrow> str \<Rightarrow> world \<Rightarrow> str \<times> world" where
  "extract_text_from_pdf E path w =
     (case Option.bind (uploads w path) (pdftotext_out E) of None \<Rightarrow> [] | Some out \<Rightarrow> out,
      w\<lparr>calls := calls w @ [Pdftotext path]\<rparr>)"

definition extract_text_from_docx :: "env \<Rightarrow> str \<Rightarrow> world \<Rightarrow> str \<times> world" where
  "extract_text_from_docx E path w =
     (case Option.bind (uploads w path) (document_xml E) of
        None \<Rightarrow> []
      | Some xml \<Rightarrow> re_sub_empty (tables E) False tag_re xml,
      w\<lparr>calls := calls w @ [OpenDocx path]\<rparr>)"

definition parse_xlsx :: "env \<Rightarrow> str \<Rightarrow> world \<Rightarrow> str list list \<times> world" where
  "parse_xlsx E path w =
     (case uploads w path of None \<Rightarrow> [] | Some bytes \<Rightarrow> workbook_rows E bytes,
      w\<lparr>calls := calls w @ [LoadWorkbook path]\<rparr>)"

text \<open>\<open>os.path.join\<close> of two components.\<close>

definition path_join :: "str \<Rightarrow> str \<Rightarrow> str" where
  "path_join a b =
     (if take 1 b = [47] then b
      else if a = [] \<or> take 1 (rev a) = [47] then a @ b
      else a @ [47] @ b)"

text \<open>
  Lines 126 to 134: the extension is what follows the last dot of the lower-cased
  name; it selects the extractor.
\<close>

definition extension :: "ucd \<Rightarrow> str \<Rightarrow> str" where
  "extension U name = last (split_chr 46 (str_lower U name))"

definition extract_by_extension :: "env \<Rightarrow> str \<Rightarrow> str \<Rightarrow> world \<Rightarrow> (str \<times> str list list) \<times> world" where
  "extract_by_extension E ext save_path w =
     (if ext = ascii ''pdf'' then
        (let (txt, w') = extract_text_from_pdf E save_path w in ((txt, []), w'))
      else if ext = ascii ''docx'' then
        (let (txt, w') = extract_text_from_docx E save_path w in ((txt, []), w'))
      else if ext \<in> set [ascii ''xlsx'', ascii ''xls''] then
        (let (rows, w') = parse_xlsx E save_path w in (([], rows), w'))
      else (([], []), w))"

text \<open>Lines 135 to 138: the text of a spreadsheet is its first five rows, flattened.\<close>

definition fallback_text :: "str \<Rightarrow> str list list \<Rightarrow> str" where
  "fallback_text txt rows =
     (if txt = [] \<and> rows \<noteq> []
      then join [10] (map (join (ascii '', '')) (take 5 rows))
      else txt)"

text \<open>
  Lines 121 to 124: the upload is written under the upload directory, its name
  prefixed with the identifier. \<open>file_id\<close> is the value of \<open>str(uuid.uuid4())\<close> at this
  call. \<open>Inr\<close>: the file is written and this is its path; \<open>Inl\<close>:
  \<open>file_storage.save\<close> raises.
\<close>

definition save_upload :: "env \<Rightarrow> str \<Rightarrow> file_storage \<Rightarrow> world \<Rightarrow> (error + str) \<times> world" where
  "save_upload E file_id f w =
     (let save_path = path_join (upload_dir E) (file_id @ ascii ''_'' @ filename f)
      in case upload_write E save_path (stream f) of
           Succeeds \<Rightarrow> (Inr save_path, w\<lparr>uploads := (uploads w)(save_path \<mapsto> stream f)\<rparr>)
         | Fails e left \<Rightarrow>
             (Inl e, case left of None \<Rightarrow> w
                     | Some bytes \<Rightarrow> w\<lparr>uploads := (uploads w)(save_path \<mapsto> bytes)\<rparr>))"

text \<open>
  \<open>process_file\<close>. \<open>now\<close> is the value of \<open>datetime.now().isoformat()\<close> at this call.
  \<open>Inr\<close>: the tender that is returned; \<open>Inl\<close>: the exception that is raised, by the
  write of the upload before anything else is done, or by \<open>save_tenders\<close> after the tender
  was put into the dictionary.
\<close>

definition process_file :: "env \<Rightarrow> str \<Rightarrow> str \<Rightarrow> file_storage \<Rightarrow> world \<Rightarrow> (error + tender) \<times> world" where
  "process_file E file_id now f w =
     (case save_upload E file_id f w of
        (Inl e, w1) \<Rightarrow> (Inl e, w1)
      | (Inr save_path, w1) \<Rightarrow>
          (let ext = extension (tables E) (filename f);
               ((txt0, rows), w2) = extract_by_extension E ext save_path w1;
               txt = fallback_text txt0 rows;
               summ = (if txt \<noteq> [] then simple_summary (tables E) txt else []);
               flds = (if txt \<noteq> [] then extract_fields (tables E) txt
                       else \<lparr>emd = [], due_date = [], eligibility = []\<rparr>);
               t = \<lparr>t_id = file_id, t_filename = filename f, t_path = save_path, t_text = txt,
                    table_rows = rows, summary = summ, t_emd = emd flds, t_due_date = due_date flds,
                    t_eligibility = eligibility flds, uploaded_at = now\<rparr>
           in case put_tender E t w2 of
                (Inl e, w3) \<Rightarrow> (Inl e, w3)
              | (Inr u, w3) \<Rightarrow> (Inr t, w3)))"

section \<open>The dashboard listing\<close>

text \<open>
  \<open>sorted(xs, key=key, reverse=reverse)\<close>. The sort is stable; with \<open>reverse\<close> the
  list is reversed, sorted and reversed again, which keeps equal keys in their
  original order. A stable sort has one result only, so the insertion sort of the
  library stands for the interpreter's.
\<close>

definition py_sorted :: "('a \<Rightarrow> 'k::linorder) \<Rightarrow> bool \<Rightarrow> 'a list \<Rightarrow> 'a list" where
  "py_sorted key reverse xs = (if reverse then rev (sort_key key (rev xs)) else sort_key key xs)"

text \<open>Line 361 of \<open>index\<close>: the tenders in the order in which the dashboard shows them.\<close>

definition index_tender_list :: "world \<Rightarrow> tender list" where
  "index_tender_list w = py_sorted uploaded_at True (map snd (tenders w))"

section \<open>The values the store writes\<close>

text \<open>
  The snapshot holds strings, lists and dictionaries only, and the keys of a dictionary
  are distinct. \<open>plain\<close> says so of a value; \<open>fuel\<close> is a number of nested calls that
  is enough for the scanner to read the value back.
\<close>

fun plain :: "json \<Rightarrow> bool" where
  "plain (JStr s) = True"
| "plain (JList xs) = list_all plain xs"
| "plain (JDict kvs) = (distinct (map fst kvs) \<and> list_all (\<lambda>kv. plain (snd kv)) kvs)"
| "plain JNull = False"
| "plain (JBool b) = False"
| "plain (JNum n) = False"

fun fuel :: "json \<Rightarrow> nat" where
  "fuel (JList xs) = Suc (sum_list (map (\<lambda>x. Suc (fuel x)) xs))"
| "fuel (JDict kvs) = Suc (sum_list (map (\<lambda>kv. Suc (fuel (snd kv))) kvs))"
| "fuel v = 1"

text \<open>No string of the value holds a surrogate code point.\<close>

fun encodable_json :: "json \<Rightarrow> bool" where
  "encodable_json (JStr s) = encodable s"
| "encodable_json (JNum n) = encodable n"
| "encodable_json (JList xs) = list_all encodable_json xs"
| "encodable_json (JDict kvs) = list_all (\<lambda>kv. encodable (fst kv) \<and> encodable_json (snd kv)) kvs"
| "encodable_json v = True"

definition encodable_tender :: "tender \<Rightarrow> bool" where
  "encodable_tender t =
     (encodable (t_id t) \<and> encodable (t_filename t) \<and> encodable (t_path t) \<and>
      encodable (t_text t) \<and> list_all (list_all encodable) (table_rows t) \<and>
      encodable (summary t) \<and> encodable (t_emd t) \<and> encodable (t_due_date t) \<and>
      encodable (t_eligibility t) \<and> encodable (uploaded_at t))"

section \<open>An environment and a store for examples\<close>

text \<open>
  An environment in which the upload directory has no subdirectory, so that a file can
  be written to it only under a name without a slash, \<open>tenders.json\<close> can be written, the
  PDF reader returns one line, the DOCX reader fails and every workbook has three rows of
  two cells; and the state before any upload.
\<close>

definition example_env :: env where
  "example_env =
     \<lparr>tables = ascii_only, upload_dir = ascii ''/srv/uploads'',
      upload_write = (\<lambda>path bytes. if 47 \<in> set (drop (length (ascii ''/srv/uploads/'')) path)
                                   then Fails FileNotFoundError None else Succeeds),
      data_write = (\<lambda>s. Succeeds),
      pdftotext_out = (\<lambda>bytes. Some (ascii ''EMD Rs 5'')),
      document_xml = (\<lambda>bytes. None),
      workbook_rows = (\<lambda>bytes. [[ascii ''Item'', ascii ''Cost''], [ascii ''Pump'', ascii ''INR 75000''],
                                  [ascii ''Due'', ascii ''12/05/2024'']])\<rparr>"

definition empty_world :: world where
  "empty_world = \<lparr>uploads = Map.empty, tenders = [], data_file = None, calls = []\<rparr>"

definition example_tender :: "str \<Rightarrow> str \<Rightarrow> tender" where
  "example_tender i u =
     \<lparr>t_id = i, t_filename = ascii ''a.pdf'', t_path = ascii ''/srv/uploads/a.pdf'', t_text = [],
      table_rows = [], summary = [], t_emd = [], t_due_date = [], t_eligibility = [],
      uploaded_at = u\<rparr>"

section \<open>What the specification calls things\<close>

text \<open>
  The words of the specification, written down apart from the patterns above, so that
  the program can be compared with them.
\<close>

text \<open>The phrase \<open>p\<close>, in any mix of upper and lower case, stands at the head of \<open>s\<close>.\<close>

definition starts_ci :: "ucd \<Rightarrow> str \<Rightarrow> str \<Rightarrow> bool" where
  "starts_ci U p s = (length p \<le> length s \<and> list_all2 (lit_ok U True) p (take (length p) s))"

text \<open>A deposit-indicator phrase occurs somewhere in the text.\<close>

definition has_deposit_indicator :: "ucd \<Rightarrow> str \<Rightarrow> bool" where
  "has_deposit_indicator U txt =
     list_ex (\<lambda>s. starts_ci U (ascii ''EMD'') s \<or> starts_ci U (ascii ''Earnest Money Deposit'') s)
       (suffixes txt)"

text \<open>
  A date-shaped token: one or two digits, a separator (\<open>/\<close> or \<open>-\<close>), one or two
  digits, a separator, and two to four digits.
\<close>

definition date_shaped :: "ucd \<Rightarrow> str \<Rightarrow> bool" where
  "date_shaped U w =
     (\<exists>i\<in>{1, 2}. \<exists>j\<in>{1, 2}. \<exists>k\<in>{2, 3, 4}.
        length w = i + 1 + j + 1 + k \<and>
        list_all (is_decimal U) (take i w) \<and> w ! i \<in> {47, 45} \<and>
        list_all (is_decimal U) (take j (drop (i + 1) w)) \<and> w ! (i + 1 + j) \<in> {47, 45} \<and>
        list_all (is_decimal U) (drop (i + 1 + j + 1) w))"

definition has_date_token :: "ucd \<Rightarrow> str \<Rightarrow> bool" where
  "has_date_token U txt = (\<exists>w\<in>set (sublists txt). date_shaped U w)"





text \<open>
  The flattening of the first five rows of a table: the cells of a row joined by a
  comma and a space, the rows joined by a newline.
\<close>

definition flatten_rows :: "str list list \<Rightarrow> str" where
  "flatten_rows rows = join [10] (map (join (ascii '', '')) (take 5 rows))"

text \<open>
  A sentence boundary at a cursor: the character before it is \<open>.\<close>, \<open>!\<close> or \<open>?\<close> and
  the character at it is white space.
\<close>

definition boundary :: "ucd \<Rightarrow> str \<Rightarrow> str \<Rightarrow> bool" where
  "boundary U b s =
     ((case b of [] \<Rightarrow> False | p # _ \<Rightarrow> p \<in> {46, 33, 63}) \<and>
      (case s of [] \<Rightarrow> False | x # _ \<Rightarrow> is_space U x))"

text \<open>
  The sentences of a text: a sentence ends after a \<open>.\<close>, \<open>!\<close> or \<open>?\<close> that white
  space follows, and the next one starts after that white space. \<open>cur\<close> holds the
  characters of the sentence being read, last first.
\<close>

function sentences :: "ucd \<Rightarrow> str \<Rightarrow> str \<Rightarrow> str list" where
  "sentences U cur [] = [rev cur]"
| "sentences U cur (x # s) =
     (if x \<in> {46, 33, 63} \<and> (case s of [] \<Rightarrow> False | y # _ \<Rightarrow> is_space U y)
      then rev (x # cur) # sentences U [] (dropWhile (is_space U) s)
      else sentences U (x # cur) s)"
  by pat_completeness auto
termination
  by (relation "measure (\<lambda>(U, cur, s). length s)")
     (auto simp: less_Suc_eq_le length_dropWhile_le)

section \<open>What a pattern accepts\<close>

text \<open>
  The words a pattern accepts, said without any search order: \<open>accepts U ic r b w\<close>
  when the word \<open>w\<close>, standing after the text \<open>b\<close> (last character first), is one the
  pattern \<open>r\<close> can match. The matcher is compared with it below.
\<close>

fun accepts :: "ucd \<Rightarrow> bool \<Rightarrow> regex \<Rightarrow> str \<Rightarrow> str \<Rightarrow> bool" where
  "accepts U ic Eps b w = (w = [])"
| "accepts U ic (Atom a) b w = (case w of [x] \<Rightarrow> atom_ok U ic a x | _ \<Rightarrow> False)"
| "accepts U ic (Seq r1 r2) b w =
     (\<exists>w1 w2. w = w1 @ w2 \<and> accepts U ic r1 b w1 \<and> accepts U ic r2 (rev w1 @ b) w2)"
| "accepts U ic (Alt r1 r2) b w = (accepts U ic r1 b w \<or> accepts U ic r2 b w)"
| "accepts U ic (Rep greedy m M a) b w =
     (m \<le> length w \<and> (case M of None \<Rightarrow> True | Some n \<Rightarrow> length w \<le> n) \<and>
      list_all (atom_ok U ic a) w)"
| "accepts U ic (Group n r) b w = accepts U ic r b w"
| "accepts U ic (Behind a) b w =
     (w = [] \<and> (case b of [] \<Rightarrow> False | p # _ \<Rightarrow> atom_ok U ic a p))"

text \<open>The groups that are bound whenever the pattern matches.\<close>

fun binds :: "regex \<Rightarrow> nat set" where
  "binds (Group n r) = insert n (binds r)"
| "binds (Seq r1 r2) = binds r1 \<union> binds r2"
| "binds (Alt r1 r2) = binds r1 \<inter> binds r2"
| "binds r = {}"

section \<open>The fields one at a time\<close>

lemma emd_extract_fields:
  "emd (extract_fields U txt) =
     (case re_search U True emd_re txt of
        Some m \<Rightarrow> fmt (m 1) @ ascii '' '' @ fmt (m 2)
      | None \<Rightarrow>
          (case re_search U False amount_re txt of
             Some m \<Rightarrow> fmt (m 1) @ ascii '' '' @ fmt (m 2)
           | None \<Rightarrow> []))"
  by (simp add: extract_fields_def)

lemma due_date_extract_fields:
  "due_date (extract_fields U txt) =
     (case re_search U True due_re txt of
        Some m \<Rightarrow> fmt (m 1)
      | None \<Rightarrow>
          (case re_search U False date_token_re txt of
             Some m \<Rightarrow> fmt (m 0)
           | None \<Rightarrow> []))"
  by (simp add: extract_fields_def)

lemma eligibility_extract_fields:
  "eligibility (extract_fields U txt) =
     (if length txt > 200 then take 200 txt @ ascii ''...'' else txt)"
  by (simp add: extract_fields_def)

lemmas pattern_defs = emd_re_def amount_re_def marker_re_def due_re_def date_token_re_def
  seqs_def lit_def opt_def

lemmas char_defs = ascii_def lit_ok_def is_decimal_def is_space_def ascii_letter_def
  ascii_lower_def

lemmas search_defs = re_search_def consumed_def fmt_def

section \<open>The eligibility excerpt\<close>

text \<open>
  C2. For every text the eligibility excerpt is the text itself when the text has at
  most 200 characters, and its first 200 characters followed by three dots when it has
  more; so the excerpt never has more than 203 characters.
\<close>

theorem eligibility_excerpt:
  "(length txt \<le> 200 \<longrightarrow> eligibility (extract_fields U txt) = txt) \<and>
   (200 < length txt \<longrightarrow> eligibility (extract_fields U txt) = take 200 txt @ ascii ''...'') \<and>
   length (eligibility (extract_fields U txt)) \<le> 203"
  by (simp add: eligibility_extract_fields ascii_def)

theorem eligibility_excerpt_witness:
  "length (replicate 200 (97::nat)) \<le> 200 \<and>
   eligibility (extract_fields ascii_only (replicate 200 97)) = replicate 200 97 \<and>
   200 < length (replicate 201 (97::nat)) \<and>
   eligibility (extract_fields ascii_only (replicate 201 97)) = replicate 200 97 @ ascii ''...'' \<and>
   length (eligibility (extract_fields ascii_only (replicate 201 97))) = 203"
  using eligibility_excerpt [of "replicate 200 97" ascii_only]
    eligibility_excerpt [of "replicate 201 97" ascii_only]
  by (simp add: ascii_def)

section \<open>The matcher against what a pattern accepts\<close>

lemma rep_sound:
  "rep U ic gr m M a b s k = Some res \<Longrightarrow>
   \<exists>w s'. s = w @ s' \<and> m \<le> length w \<and> (case M of None \<Rightarrow> True | Some n \<Rightarrow> length w \<le> n) \<and>
          list_all (atom_ok U ic a) w \<and> k (rev w @ b, s') = Some res"
proof (induction s arbitrary: m M b)
  case Nil
  then show ?case by (auto split: if_splits option.splits)
next
  case (Cons x s)
  let ?more = "M \<noteq> Some 0 \<and> atom_ok U ic a x"
  from Cons.prems consider
      (stop) "m = 0" "k (b, x # s) = Some res"
    | (more) "?more" "rep U ic gr (m - 1) (map_option (\<lambda>n. n - 1) M) a (x # b) s k = Some res"
    by (auto split: if_splits option.splits)
  then show ?case
  proof cases
    case stop
    then show ?thesis by (intro exI [of _ "[]"] exI [of _ "x # s"]) (auto split: option.splits)
  next
    case more
    from Cons.IH [OF more(2)] obtain w s' where
      w: "s = w @ s'" "m - 1 \<le> length w"
         "(case map_option (\<lambda>n. n - 1) M of None \<Rightarrow> True | Some n \<Rightarrow> length w \<le> n)"
         "list_all (atom_ok U ic a) w" "k (rev w @ x # b, s') = Some res"
      by auto
    with more(1) show ?thesis
      by (intro exI [of _ "x # w"] exI [of _ s']) (auto split: option.splits)
  qed
qed


lemma ms_sound:
  "ms U ic r (b, s) g k = Some res \<Longrightarrow>
   \<exists>w s' g'. s = w @ s' \<and> accepts U ic r b w \<and> k (rev w @ b, s') g' = Some res"
proof (induction r arbitrary: b s g k)
  case Eps
  then show ?case by auto
next
  case (Atom a)
  show ?case
  proof (cases s)
    case Nil
    with Atom show ?thesis by simp
  next
    case (Cons x t)
    with Atom have "atom_ok U ic a x" "k (x # b, t) g = Some res"
      by (auto split: if_splits)
    with Cons show ?thesis
      by (intro exI [of _ "[x]"] exI [of _ t] exI [of _ g]) simp
  qed
next
  case (Seq r1 r2)
  from Seq.prems have "ms U ic r1 (b, s) g (\<lambda>c' g'. ms U ic r2 c' g' k) = Some res" by simp
  from Seq.IH(1) [OF this] obtain w1 s1 g1 where
    1: "s = w1 @ s1" "accepts U ic r1 b w1" "ms U ic r2 (rev w1 @ b, s1) g1 k = Some res"
    by blast
  from Seq.IH(2) [OF 1(3)] obtain w2 s2 g2 where
    2: "s1 = w2 @ s2" "accepts U ic r2 (rev w1 @ b) w2" "k (rev w2 @ rev w1 @ b, s2) g2 = Some res"
    by blast
  show ?case
    using 1 2 by (intro exI [of _ "w1 @ w2"] exI [of _ s2] exI [of _ g2]) auto
next
  case (Alt r1 r2)
  from Alt.prems have "ms U ic r1 (b, s) g k = Some res \<or> ms U ic r2 (b, s) g k = Some res"
    by (auto split: option.splits)
  then show ?case using Alt.IH by fastforce
next
  case (Rep gr m M a)
  then show ?case using rep_sound [of U ic gr m M a b s "\<lambda>c'. k c' g" res] by auto
next
  case (Group n r)
  from Group.prems
  have "ms U ic r (b, s) g (\<lambda>c' g'. k c' (g'(n \<mapsto> consumed (b, s) c'))) = Some res" by simp
  from Group.IH [OF this] show ?case by auto
next
  case (Behind a)
  then show ?case by (cases b) (auto split: if_splits)
qed




lemma search_from_Some:
  "search_from U ic r b s = Some st \<Longrightarrow>
   \<exists>pre rest. s = pre @ rest \<and>
     ms U ic (Group 0 r) (rev pre @ b, rest) Map.empty (\<lambda>c g. Some (c, g)) = Some st \<and>
     (\<forall>pre' rest'. s = pre' @ rest' \<and> length pre' < length pre \<longrightarrow>
        ms U ic (Group 0 r) (rev pre' @ b, rest') Map.empty (\<lambda>c g. Some (c, g)) = None)"
proof (induction s arbitrary: b)
  case Nil
  then show ?case by simp
next
  case (Cons x s)
  let ?here = "ms U ic (Group 0 r) (b, x # s) Map.empty (\<lambda>c g. Some (c, g))"
  show ?case
  proof (cases ?here)
    case (Some st')
    with Cons.prems have "?here = Some st" by simp
    then show ?thesis by (intro exI [of _ "[]"] exI [of _ "x # s"]) simp
  next
    case None
    with Cons.prems have "search_from U ic r (x # b) s = Some st" by simp
    from Cons.IH [OF this] obtain pre rest where
      p: "s = pre @ rest"
         "ms U ic (Group 0 r) (rev pre @ x # b, rest) Map.empty (\<lambda>c g. Some (c, g)) = Some st"
         "\<And>pre' rest'. s = pre' @ rest' \<Longrightarrow> length pre' < length pre \<Longrightarrow>
            ms U ic (Group 0 r) (rev pre' @ x # b, rest') Map.empty (\<lambda>c g. Some (c, g)) = None"
      by blast
    have "ms U ic (Group 0 r) (rev pre' @ b, rest') Map.empty (\<lambda>c g. Some (c, g)) = None"
      if "x # s = pre' @ rest'" "length pre' < length (x # pre)" for pre' rest'
    proof (cases pre')
      case Nil
      with that None show ?thesis by simp
    next
      case (Cons y q)
      with that have "s = q @ rest'" "length q < length pre" "y = x" by auto
      from p(3) [OF this(1,2)] show ?thesis using Cons \<open>y = x\<close> by simp
    qed
    with p(1,2) show ?thesis
      by (intro exI [of _ "x # pre"] exI [of _ rest]) simp
  qed
qed

lemma re_search_accepts:
  assumes "re_search U ic r txt = Some m"
  shows "\<exists>pre w post. txt = pre @ w @ post \<and> accepts U ic r (rev pre) w"
proof -
  from assms obtain st where "search_from U ic r [] txt = Some st"
    by (auto simp: re_search_def)
  from search_from_Some [OF this] obtain pre rest where
    p: "txt = pre @ rest"
       "ms U ic (Group 0 r) (rev pre, rest) Map.empty (\<lambda>c g. Some (c, g)) = Some st"
    by auto
  from ms_sound [OF p(2)] obtain w s' where "rest = w @ s'" "accepts U ic r (rev pre) w"
    by auto
  with p(1) show ?thesis by auto
qed

lemma re_search_NoneI:
  assumes "\<And>pre w post. txt = pre @ w @ post \<Longrightarrow> \<not> accepts U ic r (rev pre) w"
  shows "re_search U ic r txt = None"
proof (cases "re_search U ic r txt")
  case (Some m)
  from re_search_accepts [OF this] assms show ?thesis by blast
qed simp

text \<open>
  A successful search binds group 0 and every group that lies on all paths through the
  pattern. The groups \<open>extract_fields\<close> reads are of this kind, so \<open>fmt\<close> never meets an
  unbound group.
\<close>

lemma ms_binds:
  "ms U ic r c g k = Some res \<Longrightarrow> \<exists>c' g'. k c' g' = Some res \<and> dom g \<union> binds r \<subseteq> dom g'"
proof (induction r arbitrary: c g k)
  case Eps
  then show ?case by (cases c) auto
next
  case (Atom a)
  then show ?case by (cases c; cases "snd c") (auto split: if_splits)
next
  case (Seq r1 r2)
  from Seq.prems have "ms U ic r1 c g (\<lambda>c' g'. ms U ic r2 c' g' k) = Some res" by simp
  from Seq.IH(1) [OF this] obtain c1 g1 where
    1: "ms U ic r2 c1 g1 k = Some res" "dom g \<union> binds r1 \<subseteq> dom g1" by blast
  from Seq.IH(2) [OF 1(1)] obtain c2 g2 where
    2: "k c2 g2 = Some res" "dom g1 \<union> binds r2 \<subseteq> dom g2" by blast
  from 1(2) 2(2) have "dom g \<union> binds (Seq r1 r2) \<subseteq> dom g2" by (simp; blast)
  with 2(1) show ?case by blast
next
  case (Alt r1 r2)
  from Alt.prems have "ms U ic r1 c g k = Some res \<or> ms U ic r2 c g k = Some res"
    by (auto split: option.splits)
  then show ?case
  proof
    assume "ms U ic r1 c g k = Some res"
    from Alt.IH(1) [OF this] obtain c' g' where
      "k c' g' = Some res" "dom g \<union> binds r1 \<subseteq> dom g'" by blast
    then have "k c' g' = Some res" "dom g \<union> binds (Alt r1 r2) \<subseteq> dom g'" by (simp_all; blast)+
    then show ?thesis by blast
  next
    assume "ms U ic r2 c g k = Some res"
    from Alt.IH(2) [OF this] obtain c' g' where
      "k c' g' = Some res" "dom g \<union> binds r2 \<subseteq> dom g'" by blast
    then have "k c' g' = Some res" "dom g \<union> binds (Alt r1 r2) \<subseteq> dom g'" by (simp_all; blast)+
    then show ?thesis by blast
  qed
next
  case (Rep gr m M a)
  obtain b s where c: "c = (b, s)" by (cases c)
  from Rep show ?case
    using rep_sound [of U ic gr m M a b s "\<lambda>c'. k c' g" res] by (auto simp: c)
next
  case (Group n r)
  from Group.prems
  have "ms U ic r c g (\<lambda>c' g'. k c' (g'(n \<mapsto> consumed c c'))) = Some res" by simp
  from Group.IH [OF this] obtain c' g' where
    "k c' (g'(n \<mapsto> consumed c c')) = Some res" "dom g \<union> binds r \<subseteq> dom g'" by blast
  then have "k c' (g'(n \<mapsto> consumed c c')) = Some res"
    "dom g \<union> binds (Group n r) \<subseteq> dom (g'(n \<mapsto> consumed c c'))"
    by (simp_all; blast)+
  then show ?case by blast
next
  case (Behind a)
  then show ?case by (cases c; cases "fst c") (auto split: if_splits)
qed

lemma re_search_binds:
  assumes "re_search U ic r txt = Some m" "n \<in> binds r \<or> n = 0"
  shows "m n \<noteq> None"
proof -
  from assms(1) obtain c where "search_from U ic r [] txt = Some (c, m)"
    by (auto simp: re_search_def)
  from search_from_Some [OF this] obtain pre rest where
    "ms U ic (Group 0 r) (rev pre, rest) Map.empty (\<lambda>c g. Some (c, g)) = Some (c, m)"
    by auto
  from ms_binds [OF this] have "insert 0 (binds r) \<subseteq> dom m" by auto
  with assms(2) show ?thesis by auto
qed

lemma binds_seqs: "binds (seqs rs) = (\<Union>r\<in>set rs. binds r)"
  by (induction rs) (simp_all add: seqs_def)

lemma binds_lit: "binds (lit s) = {}"
  by (induction s) (simp_all add: lit_def)

lemma groups_of_extract_fields:
  "(re_search U True emd_re txt = Some m \<longrightarrow> m 1 \<noteq> None \<and> m 2 \<noteq> None) \<and>
   (re_search U False amount_re txt = Some m \<longrightarrow> m 1 \<noteq> None \<and> m 2 \<noteq> None) \<and>
   (re_search U True due_re txt = Some m \<longrightarrow> m 1 \<noteq> None) \<and>
   (re_search U False date_token_re txt = Some m \<longrightarrow> m 0 \<noteq> None)"
proof -
  have a: "binds amount_re = {1, 2}"
    by (auto simp: amount_re_def marker_re_def opt_def binds_seqs binds_lit)
  have e: "binds emd_re = {1, 2}" by (auto simp: emd_re_def binds_seqs binds_lit a)
  have d: "binds due_re = {1}"
    by (auto simp: due_re_def date_token_re_def opt_def binds_seqs binds_lit)
  show ?thesis
    using re_search_binds [of U True emd_re "txt" m 1] re_search_binds [of U True emd_re "txt" m 2]
      re_search_binds [of U False amount_re "txt" m 1] re_search_binds [of U False amount_re "txt" m 2]
      re_search_binds [of U True due_re "txt" m 1] re_search_binds [of U False date_token_re "txt" m 0]
    by (simp add: a e d)
qed

section \<open>Due dates\<close>

text \<open>A date-shaped word, spelled out.\<close>

lemma date_shapedD:
  assumes "date_shaped U w"
  shows "\<exists>d s1 m s2 y. w = d @ [s1] @ m @ [s2] @ y \<and>
           list_all (is_decimal U) d \<and> length d \<in> {1, 2} \<and> s1 \<in> {47, 45} \<and>
           list_all (is_decimal U) m \<and> length m \<in> {1, 2} \<and> s2 \<in> {47, 45} \<and>
           list_all (is_decimal U) y \<and> length y \<in> {2, 3, 4}"
proof -
  from assms obtain i j k where
    ijk: "i \<in> {1, 2}" "j \<in> {1, 2}" "k \<in> {2, 3, 4}" "length w = i + 1 + j + 1 + k"
      "list_all (is_decimal U) (take i w)" "w ! i \<in> {47, 45}"
      "list_all (is_decimal U) (take j (drop (i + 1) w))" "w ! (i + 1 + j) \<in> {47, 45}"
      "list_all (is_decimal U) (drop (i + 1 + j + 1) w)"
    unfolding date_shaped_def by blast
  have 1: "w = take i w @ w ! i # drop (Suc i) w"
    using ijk(4) by (intro id_take_nth_drop) simp
  have 2: "drop (Suc i) w = take j (drop (Suc i) w) @ drop (Suc i) w ! j # drop (Suc j) (drop (Suc i) w)"
    using ijk(4) by (intro id_take_nth_drop) simp
  have 3: "drop (Suc i) w ! j = w ! (i + 1 + j)" using ijk(4) by (simp add: add.commute)
  have 4: "drop (Suc j) (drop (Suc i) w) = drop (i + 1 + j + 1) w" by (simp add: add.commute)
  have w: "w = take i w @ [w ! i] @ take j (drop (i + 1) w) @ [w ! (i + 1 + j)] @ drop (i + 1 + j + 1) w"
    using 1 2 3 4 by simp
  have l: "length (take i w) \<in> {1, 2}" "length (take j (drop (i + 1) w)) \<in> {1, 2}"
    "length (drop (i + 1 + j + 1) w) \<in> {2, 3, 4}"
    using ijk(1-4) by auto
  show ?thesis
    by (rule exI [of _ "take i w"], rule exI [of _ "w ! i"], rule exI [of _ "take j (drop (i + 1) w)"],
        rule exI [of _ "w ! (i + 1 + j)"], rule exI [of _ "drop (i + 1 + j + 1) w"])
      (intro conjI w l ijk(5-9))
qed

lemma accepts_Atom: "accepts U ic (Atom a) b w = (\<exists>x. w = [x] \<and> atom_ok U ic a x)"
  by (cases w; cases "tl w") auto

lemma accepts_seqs_Nil: "accepts U ic (seqs []) b w = (w = [])"
  by (simp add: seqs_def)

lemma accepts_seqs_Cons:
  "accepts U ic (seqs (r # rs)) b w =
     (\<exists>w1 w2. w = w1 @ w2 \<and> accepts U ic r b w1 \<and> accepts U ic (seqs rs) (rev w1 @ b) w2)"
  by (simp add: seqs_def)

lemma sep_ok: "atom_ok U ic (In [IChr 47, IChr 45]) c = (c = 47 \<or> c = 45)"
  by (auto simp: lit_ok_def ascii_letter_def)

lemma digit_ok: "atom_ok U ic (In [IDigit]) = is_decimal U"
  by (rule ext) simp

lemma date_shapedI:
  assumes "list_all (is_decimal U) d" "length d \<in> {1, 2}" "s1 \<in> {47, 45}"
    "list_all (is_decimal U) m" "length m \<in> {1, 2}" "s2 \<in> {47, 45}"
    "list_all (is_decimal U) y" "length y \<in> {2, 3, 4}"
  shows "date_shaped U (d @ [s1] @ m @ [s2] @ y)"
  unfolding date_shaped_def
  apply (rule bexI [of _ "length d"])
   apply (rule bexI [of _ "length m"])
    apply (rule bexI [of _ "length y"])
  using assms by (simp_all add: nth_append)

lemma has_date_tokenI:
  "txt = pre @ w @ post \<Longrightarrow> date_shaped U w \<Longrightarrow> has_date_token U txt"
  unfolding has_date_token_def by (rule bexI [of _ w]) (auto simp: sublist_def)

lemma accepts_date_token:
  assumes "accepts U ic date_token_re b w"
  shows "date_shaped U w"
proof -
  from assms obtain d s1 m s2 y where
    w: "w = d @ [s1] @ m @ [s2] @ y"
    and d: "1 \<le> length d" "length d \<le> 2" "list_all (is_decimal U) d"
    and s1: "s1 = 47 \<or> s1 = 45"
    and m: "1 \<le> length m" "length m \<le> 2" "list_all (is_decimal U) m"
    and s2: "s2 = 47 \<or> s2 = 45"
    and y: "2 \<le> length y" "length y \<le> 4" "list_all (is_decimal U) y"
    unfolding date_token_re_def
    by (auto simp: accepts_seqs_Cons accepts_seqs_Nil accepts_Atom sep_ok digit_ok
        simp del: accepts.simps(2) atom_ok.simps)
  have "length d \<in> {1, 2}" "length m \<in> {1, 2}" "length y \<in> {2, 3, 4}"
    "s1 \<in> {47, 45}" "s2 \<in> {47, 45}"
    using d m y s1 s2 by auto
  from date_shapedI [OF d(3) this(1,4) m(3) this(2,5) y(3) this(3)]
  show ?thesis by (simp add: w)
qed

lemma accepts_due:
  assumes "accepts U ic due_re b w"
  shows "\<exists>w1 w2. w = w1 @ w2 \<and> date_shaped U w2"
proof -
  from assms obtain p q d b' where "w = p @ q @ d" "accepts U ic date_token_re b' d"
    unfolding due_re_def
    by (auto simp: accepts_seqs_Cons accepts_seqs_Nil simp del: accepts.simps(3,4))
  then show ?thesis using accepts_date_token [of U ic b' d]
    by (intro exI [of _ "p @ q"] exI [of _ d]) simp
qed

lemma has_date_token_sublist:
  assumes "txt = pre @ w @ post" "w = w1 @ w2" "date_shaped U w2"
  shows "has_date_token U txt"
  using has_date_tokenI [of "txt" "pre @ w1" w2 post U] assms by simp

text \<open>
  C4. A text that holds no date-shaped token anywhere has the empty string as its due
  date. \<open>extract_fields\<close> has no failing branch: a due date that is not found is an
  empty field, not an error.
\<close>

theorem due_date_empty_without_date_token:
  assumes "\<not> has_date_token U txt"
  shows "due_date (extract_fields U txt) = []"
proof -
  have "re_search U True due_re txt = None"
  proof (rule re_search_NoneI)
    fix pre w post assume "txt = pre @ w @ post"
    with assms accepts_due [of U True "rev pre" w] has_date_token_sublist [of "txt" pre w post _ _ U]
    show "\<not> accepts U True due_re (rev pre) w" by blast
  qed
  moreover have "re_search U False date_token_re txt = None"
  proof (rule re_search_NoneI)
    fix pre w post assume "txt = pre @ w @ post"
    with assms accepts_date_token [of U False "rev pre" w] has_date_tokenI [of "txt" pre w post U]
    show "\<not> accepts U False date_token_re (rev pre) w" by blast
  qed
  ultimately show ?thesis by (simp add: due_date_extract_fields)
qed

theorem due_date_empty_without_date_token_witness:
  "\<not> has_date_token ascii_only (ascii ''Bids close soon'') \<and>
   due_date (extract_fields ascii_only (ascii ''Bids close soon'')) = []"
proof -
  have h: "\<not> has_date_token ascii_only (ascii ''Bids close soon'')"
    by (simp add: has_date_token_def date_shaped_def char_defs)
  from due_date_empty_without_date_token [OF h] h show ?thesis by simp
qed

section \<open>Deposit amounts\<close>












lemma rep_greedy_total:
  assumes "\<And>c. k c \<noteq> None"
  shows "rep U ic True m None a b s k =
    (if m \<le> length (takeWhile (atom_ok U ic a) s)
     then k (rev (takeWhile (atom_ok U ic a) s) @ b, dropWhile (atom_ok U ic a) s)
     else None)"
proof (induction s arbitrary: m b)
  case Nil
  then show ?case by simp
next
  case (Cons x s)
  show ?case
  proof (cases "atom_ok U ic a x")
    case True
    show ?thesis
    proof (cases "m - 1 \<le> length (takeWhile (atom_ok U ic a) s)")
      case le: True
      with True assms [of "(rev (takeWhile (atom_ok U ic a) s) @ x # b, dropWhile (atom_ok U ic a) s)"]
      show ?thesis by (auto simp: Cons.IH)
    next
      case False
      with True show ?thesis by (auto simp: Cons.IH)
    qed
  next
    case False
    with assms [of "(b, x # s)"] show ?thesis by auto
  qed
qed


lemma consumed_dropWhile: "consumed (b, s) (b', dropWhile P s) = takeWhile P s"
proof -
  have "length (takeWhile P s) + length (dropWhile P s) = length s"
    by (simp flip: length_append)
  then have "length s - length (dropWhile P s) = length (takeWhile P s)"
    by arith
  then show ?thesis by (simp add: consumed_def takeWhile_eq_take [symmetric])
qed


lemma space_ok: "atom_ok U ic (In [ISpace]) = is_space U"
  by (rule ext) simp





lemma accepts_seqs_ConsI:
  "accepts U ic r b w1 \<Longrightarrow> accepts U ic (seqs rs) (rev w1 @ b) w2 \<Longrightarrow>
   accepts U ic (seqs (r # rs)) b (w1 @ w2)"
  unfolding accepts_seqs_Cons by blast








section \<open>Writing files\<close>

lemma save_upload_calls: "calls (snd (save_upload E file_id f w)) = calls w"
  by (simp add: save_upload_def Let_def split: outcome.splits option.splits)

lemma save_tenders_keeps:
  "tenders (snd (save_tenders E w)) = tenders w"
  "calls (snd (save_tenders E w)) = calls w"
  by (simp_all add: save_tenders_def Let_def split: outcome.splits option.splits)

lemma put_tender_tenders:
  "tenders (snd (put_tender E t w)) = AList.update (t_id t) t (tenders w)"
  by (simp add: put_tender_def save_tenders_keeps)

lemma put_tender_calls: "calls (snd (put_tender E t w)) = calls w"
  by (simp add: put_tender_def save_tenders_keeps)

lemma get_after_put: "get_tender (snd (put_tender E t w)) (t_id t) = Some t"
  by (simp add: get_tender_def put_tender_tenders update_conv')

text \<open>The pieces that \<open>json.dump\<close> writes make up the text of \<open>json.dumps\<close>.\<close>

lemma join_Cons: "join sep (x # xs) = x @ (if xs = [] then [] else sep @ join sep xs)"
  by (cases xs) simp_all

lemma concat_sep_join:
  "concat (map (\<lambda>x. sep @ f x) xs) = (if xs = [] then [] else sep @ join sep (map f xs))"
  by (induction xs) (simp_all add: join_Cons)

lemma concat_with_buf: "concat (with_buf buf v cs) = buf @ concat cs"
  by (simp add: with_buf_def)

lemma concat_chunks: "concat (iterencode_chunks level v) = iterencode level v"
proof (induction level v rule: iterencode_chunks.induct)
  case (6 level x xs)
  have "concat (concat (map (\<lambda>v. with_buf (44 # newline_indent (Suc level)) v
            (iterencode_chunks (Suc level) v)) xs))
      = concat (map (\<lambda>v. (44 # newline_indent (Suc level)) @ iterencode (Suc level) v) xs)"
    using 6(2) by (induction xs) (simp_all add: concat_with_buf)
  then show ?case
    using 6(1) concat_sep_join [of "44 # newline_indent (Suc level)" "iterencode (Suc level)" xs]
    by (simp add: concat_with_buf join_Cons)
next
  case (8 level kv kvs)
  have "concat (concat (map (\<lambda>kv. [44 # newline_indent (Suc level), encode_basestring (fst kv), ascii '': '']
            @ iterencode_chunks (Suc level) (snd kv)) kvs))
      = concat (map (\<lambda>kv. (44 # newline_indent (Suc level))
            @ (encode_basestring (fst kv) @ ascii '': '' @ iterencode (Suc level) (snd kv))) kvs)"
    using 8(2) by (induction kvs) simp_all
  then show ?case
    using 8(1) concat_sep_join [of "44 # newline_indent (Suc level)"
        "\<lambda>kv. encode_basestring (fst kv) @ ascii '': '' @ iterencode (Suc level) (snd kv)" kvs]
    by (simp add: join_Cons)
qed simp_all

text \<open>
  The pieces of \<open>{"a": {"r": [["x", "y"], [], {}], "s": "t", "n": null}}\<close>, in the order in
  which they are written.
\<close>

lemma replicate_num: "replicate (numeral k) x = x # replicate (pred_numeral k) x"
  by (simp add: numeral_eq_Suc)

lemma chunks_example:
  "iterencode_chunks 0 (JDict [(ascii ''a'', JDict [(ascii ''r'', JList [JList [JStr (ascii ''x''), JStr (ascii ''y'')], JList [], JDict []]),
       (ascii ''s'', JStr (ascii ''t'')), (ascii ''n'', JNull)])])
   = [[123],
      [10, 32, 32],
      [34, 97, 34],
      [58, 32],
      [123],
      [10, 32, 32, 32, 32],
      [34, 114, 34],
      [58, 32],
      [91, 10, 32, 32, 32, 32, 32, 32],
      [91, 10, 32, 32, 32, 32, 32, 32, 32, 32, 34, 120, 34],
      [44, 10, 32, 32, 32, 32, 32, 32, 32, 32, 34, 121, 34],
      [10, 32, 32, 32, 32, 32, 32],
      [93],
      [44, 10, 32, 32, 32, 32, 32, 32],
      [91, 93],
      [44, 10, 32, 32, 32, 32, 32, 32],
      [123, 125],
      [10, 32, 32, 32, 32],
      [93],
      [44, 10, 32, 32, 32, 32],
      [34, 115, 34],
      [58, 32],
      [34, 116, 34],
      [44, 10, 32, 32, 32, 32],
      [34, 110, 34],
      [58, 32],
      [110, 117, 108, 108],
      [10, 32, 32],
      [125],
      [10],
      [125]]"
  by (simp add: with_buf_def encode_basestring_def escape_chr_def newline_indent_def ascii_def
      replicate_num)

text \<open>
  Every piece can be encoded when no string of the value holds a surrogate; then, and
  when the file system writes the file, \<open>save_tenders\<close> returns and the file holds the
  whole text.
\<close>

lemma encodable_append: "encodable (a @ b) = (encodable a \<and> encodable b)"
  by (simp add: encodable_def)

lemma encodable_concat: "encodable (concat cs) = list_all encodable cs"
  by (induction cs) (simp_all add: encodable_def)

lemma encodable_ascii: "encodable (ascii s)"
proof -
  have "of_char c < (55296 :: nat)" for c
    using nat_of_char_less_256 [of c] by linarith
  then show ?thesis by (simp add: encodable_def ascii_def list_all_iff)
qed

lemma encodable_newline_indent: "encodable (newline_indent n)"
  by (simp add: encodable_def newline_indent_def list_all_iff)

lemma encodable_escape_chr: "encodable [c] \<Longrightarrow> encodable (escape_chr c)"
proof -
  have "hex_digit n < 55296" if "n < 16" for n using that by (simp add: hex_digit_def)
  moreover have "c div 16 < 16" if "c < 32" using that by simp
  moreover have "c mod 16 < 16" by simp
  ultimately show "encodable [c] \<Longrightarrow> encodable (escape_chr c)"
    by (simp add: encodable_def escape_chr_def)
qed

lemma encodable_basestring: "encodable s \<Longrightarrow> encodable (encode_basestring s)"
proof -
  assume s: "encodable s"
  have "encodable (escape_chr c)" if "c \<in> set s" for c
    using that s by (intro encodable_escape_chr) (simp add: encodable_def list_all_iff)
  then have "list_all encodable (map escape_chr s)" by (simp add: list_all_iff)
  then have "encodable (concat (map escape_chr s))" by (simp only: encodable_concat)
  moreover have "encodable [34]" by (simp add: encodable_def)
  ultimately show ?thesis
    by (simp only: encode_basestring_def encodable_append simp_thms)
qed

lemma encodable_with_buf:
  "encodable buf \<Longrightarrow> list_all encodable cs \<Longrightarrow> list_all encodable (with_buf buf v cs)"
  by (simp add: with_buf_def encodable_append encodable_concat)

lemma encodable_chunks:
  "encodable_json v \<Longrightarrow> list_all encodable (iterencode_chunks level v)"
proof (induction level v rule: iterencode_chunks.induct)
  case (6 level x xs)
  have b: "encodable ([91] @ newline_indent (Suc level))" "encodable (44 # newline_indent (Suc level))"
    "encodable [93]"
    using encodable_newline_indent [of "Suc level"] by (simp_all add: encodable_def)
  have "list_all encodable (with_buf (44 # newline_indent (Suc level)) v
            (iterencode_chunks (Suc level) v))" if "v \<in> set xs" for v
    using 6(2) [OF that] 6(3) that b by (intro encodable_with_buf) (simp_all add: list_all_iff)
  moreover have "list_all encodable (with_buf ([91] @ newline_indent (Suc level)) x
            (iterencode_chunks (Suc level) x))"
    using 6(1) 6(3) b by (intro encodable_with_buf) simp_all
  ultimately show ?case
    using b encodable_newline_indent [of level] by (auto simp: list_all_iff)
next
  case (8 level kv kvs)
  have b: "encodable [123]" "encodable (44 # newline_indent (Suc level))" "encodable [125]"
    "encodable (ascii '': '')"
    using encodable_newline_indent [of "Suc level"] encodable_ascii [of "'': ''"]
    by (simp_all add: encodable_def)
  have "list_all encodable (iterencode_chunks (Suc level) (snd kv'))"
    "encodable (encode_basestring (fst kv'))" if "kv' \<in> set kvs" for kv'
    using 8(2) [OF that] 8(3) that by (simp_all add: list_all_iff encodable_basestring)
  moreover have "list_all encodable (iterencode_chunks (Suc level) (snd kv))"
    "encodable (encode_basestring (fst kv))"
    using 8(1) 8(3) by (simp_all add: encodable_basestring)
  ultimately show ?case
    using b encodable_newline_indent [of level] encodable_newline_indent [of "Suc level"]
    by (auto simp: list_all_iff)
qed (simp_all add: encodable_ascii encodable_basestring)

lemma encodable_tender_dict: "encodable_tender t \<Longrightarrow> encodable_json (tender_dict t)"
proof -
  assume t: "encodable_tender t"
  then have "list_all encodable_json (map (\<lambda>row. JList (map JStr row)) (table_rows t))"
    by (simp add: encodable_tender_def list_all_iff)
  then show ?thesis
    using t by (simp add: tender_dict_def encodable_tender_def encodable_ascii)
qed

lemma encodable_tenders_dict:
  "list_all (\<lambda>kt. encodable (fst kt) \<and> encodable_tender (snd kt)) ts \<Longrightarrow>
   encodable_json (tenders_dict ts)"
  by (induction ts) (auto simp: tenders_dict_def encodable_tender_dict)

lemma save_tenders_returns:
  assumes "data_write E (json_dumps (tenders_dict (tenders w))) = Succeeds"
    and "encodable_json (tenders_dict (tenders w))"
  shows "save_tenders E w = (Inr (), w\<lparr>data_file := Some (json_dumps (tenders_dict (tenders w)))\<rparr>)"
proof -
  let ?cs = "iterencode_chunks 0 (tenders_dict (tenders w))"
  have a: "list_all encodable ?cs" using assms(2) by (rule encodable_chunks)
  then have tw: "takeWhile encodable ?cs = ?cs" by (simp add: list_all_iff)
  have "concat (takeWhile encodable ?cs) = json_dumps (tenders_dict (tenders w))"
    by (simp only: tw concat_chunks json_dumps_def)
  then show ?thesis using assms(1) a by (simp add: save_tenders_def Let_def)
qed

lemma save_tenders_Inr:
  assumes "save_tenders E w = (Inr u, w1)"
  shows "w1 = w\<lparr>data_file := Some (json_dumps (tenders_dict (tenders w)))\<rparr>"
proof -
  let ?cs = "iterencode_chunks 0 (tenders_dict (tenders w))"
  from assms have a: "list_all encodable ?cs"
    and b: "w1 = w\<lparr>data_file := Some (concat (takeWhile encodable ?cs))\<rparr>"
    by (auto simp: save_tenders_def Let_def split: outcome.splits option.splits if_splits)
  from a have "takeWhile encodable ?cs = ?cs" by (simp add: list_all_iff)
  with b show ?thesis by (simp add: concat_chunks json_dumps_def)
qed

section \<open>\<open>process_file\<close>\<close>

text \<open>\<open>str.split\<close> never returns an empty list, so the last piece exists.\<close>

lemma split_chr_nonempty: "split_chr c s \<noteq> []"
  by (induction s) (auto split: list.splits)

lemma ascii_eq_iff: "(ascii a = ascii b) = (a = b)"
  by (simp add: ascii_def inj_on_def)

lemma extract_unrecognized:
  assumes "ext \<notin> set (map ascii [''pdf'', ''docx'', ''xlsx'', ''xls''])"
  shows "extract_by_extension E ext p w = (([], []), w)"
  using assms by (simp add: extract_by_extension_def)

text \<open>
  \<open>process_file\<close> after the upload was written: the tender is built and put, and is
  returned unless \<open>save_tenders\<close> raises. When the upload cannot be written, nothing else
  is done.
\<close>

lemma process_file_written:
  assumes "save_upload E file_id f w = (Inr p, w1)"
    and "extract_by_extension E (extension (tables E) (filename f)) p w1 = ((txt0, rows), w2)"
    and "t = \<lparr>t_id = file_id, t_filename = filename f, t_path = p,
          t_text = fallback_text txt0 rows, table_rows = rows,
          summary = (if fallback_text txt0 rows \<noteq> []
                     then simple_summary (tables E) (fallback_text txt0 rows) else []),
          t_emd = (if fallback_text txt0 rows \<noteq> []
                   then emd (extract_fields (tables E) (fallback_text txt0 rows)) else []),
          t_due_date = (if fallback_text txt0 rows \<noteq> []
                   then due_date (extract_fields (tables E) (fallback_text txt0 rows)) else []),
          t_eligibility = (if fallback_text txt0 rows \<noteq> []
                   then eligibility (extract_fields (tables E) (fallback_text txt0 rows)) else []),
          uploaded_at = now\<rparr>"
  shows "process_file E file_id now f w =
           (case put_tender E t w2 of (Inl e, w3) \<Rightarrow> (Inl e, w3) | (Inr u, w3) \<Rightarrow> (Inr t, w3))"
  by (cases "fallback_text txt0 rows = []")
    (simp_all add: process_file_def assms Let_def split: prod.splits sum.splits)

lemma process_file_not_written:
  "save_upload E file_id f w = (Inl e, w1) \<Longrightarrow> process_file E file_id now f w = (Inl e, w1)"
  by (simp add: process_file_def)

lemma put_then_return:
  assumes "r = (case put_tender E t w2 of (Inl e, w3) \<Rightarrow> (Inl e, w3) | (Inr u, w3) \<Rightarrow> (Inr t', w3))"
  shows "snd r = snd (put_tender E t w2)" "fst r = Inr x \<Longrightarrow> x = t'"
    "fst (put_tender E t w2) = Inr () \<Longrightarrow> fst r = Inr t'"
  using assms by (auto split: prod.splits sum.splits)

text \<open>
  C7. An upload whose lower-cased extension is none of \<open>pdf\<close>, \<open>docx\<close>, \<open>xlsx\<close> and
  \<open>xls\<close> runs no extractor. When the upload cannot be written under the upload
  directory, \<open>process_file\<close> raises the error of the write and builds no tender. When it
  is written, the tender that is built and put into the store has an empty text, no
  table rows, and an empty summary, deposit amount, due date and eligibility excerpt,
  and it is returned unless \<open>save_tenders\<close> raises; so every tender that \<open>process_file\<close>
  returns for such an upload has these fields empty.
\<close>

theorem unrecognized_extension:
  assumes "extension (tables E) (filename f) \<notin> set (map ascii [''pdf'', ''docx'', ''xlsx'', ''xls''])"
  shows "calls (snd (process_file E file_id now f w)) = calls w \<and>
    (\<forall>e w1. save_upload E file_id f w = (Inl e, w1) \<longrightarrow>
       process_file E file_id now f w = (Inl e, w1)) \<and>
    (\<forall>p w1. save_upload E file_id f w = (Inr p, w1) \<longrightarrow>
       (\<exists>t. t_text t = [] \<and> table_rows t = [] \<and> summary t = [] \<and> t_emd t = [] \<and>
            t_due_date t = [] \<and> t_eligibility t = [] \<and>
            get_tender (snd (process_file E file_id now f w)) file_id = Some t \<and>
            process_file E file_id now f w =
              (case put_tender E t w1 of (Inl e, w3) \<Rightarrow> (Inl e, w3) | (Inr u, w3) \<Rightarrow> (Inr t, w3)))) \<and>
    (\<forall>t. fst (process_file E file_id now f w) = Inr t \<longrightarrow>
       t_text t = [] \<and> table_rows t = [] \<and> summary t = [] \<and> t_emd t = [] \<and>
       t_due_date t = [] \<and> t_eligibility t = [])"
proof -
  let ?T = "\<lambda>p. \<lparr>t_id = file_id, t_filename = filename f, t_path = p, t_text = [],
       table_rows = [], summary = [], t_emd = [], t_due_date = [], t_eligibility = [],
       uploaded_at = now\<rparr>"
  have written: "process_file E file_id now f w =
      (case put_tender E (?T p) w1 of (Inl e, w3) \<Rightarrow> (Inl e, w3) | (Inr u, w3) \<Rightarrow> (Inr (?T p), w3))"
    if "save_upload E file_id f w = (Inr p, w1)" for p w1
    by (rule process_file_written [OF that extract_unrecognized [OF assms]])
      (simp add: fallback_text_def)
  have stored: "get_tender (snd (process_file E file_id now f w)) file_id = Some (?T p)"
    if "save_upload E file_id f w = (Inr p, w1)" for p w1
    using get_after_put [of E "?T p" w1] put_then_return(1) [OF written [OF that]] by simp
  obtain r w1 where s: "save_upload E file_id f w = (r, w1)"
    by (cases "save_upload E file_id f w")
  have c: "calls w1 = calls w" using save_upload_calls [of E file_id f w] s by simp
  have 1: "calls (snd (process_file E file_id now f w)) = calls w"
  proof (cases r)
    case (Inl e)
    then show ?thesis using s c by (simp add: process_file_not_written)
  next
    case (Inr p)
    then show ?thesis
      using put_then_return(1) [OF written [of p w1]] s c by (simp add: put_tender_calls)
  qed
  have 4: "t_text t = [] \<and> table_rows t = [] \<and> summary t = [] \<and> t_emd t = [] \<and>
       t_due_date t = [] \<and> t_eligibility t = []"
    if "fst (process_file E file_id now f w) = Inr t" for t
  proof (cases r)
    case (Inl e)
    then show ?thesis using s that by (simp add: process_file_not_written)
  next
    case (Inr p)
    then have "t = ?T p" using put_then_return(2) [OF written [of p w1] that] s by simp
    then show ?thesis by simp
  qed
  have 3: "\<exists>t. t_text t = [] \<and> table_rows t = [] \<and> summary t = [] \<and> t_emd t = [] \<and>
            t_due_date t = [] \<and> t_eligibility t = [] \<and>
            get_tender (snd (process_file E file_id now f w)) file_id = Some t \<and>
            process_file E file_id now f w =
              (case put_tender E t w1 of (Inl e, w3) \<Rightarrow> (Inl e, w3) | (Inr u, w3) \<Rightarrow> (Inr t, w3))"
    if "save_upload E file_id f w = (Inr p, w1)" for p w1
    using stored [OF that] written [OF that] by (intro exI [of _ "?T p"]) simp
  show ?thesis using 1 3 4 by (simp add: process_file_not_written)
qed

lemma ext_txt: "extension ascii_only (ascii ''notes.txt'') = ascii ''txt''"
  by (simp add: extension_def str_lower_def ascii_def ascii_lower_def)

lemma ext_dir_txt: "extension ascii_only (ascii ''dir/notes.txt'') = ascii ''txt''"
  by (simp add: extension_def str_lower_def ascii_def ascii_lower_def)

lemma notes_returns:
  "fst (process_file example_env (ascii ''id-1'') (ascii ''2024-05-12T10:00:00'')
      \<lparr>filename = ascii ''notes.txt'', stream = [104, 105]\<rparr> empty_world)
   = Inr \<lparr>t_id = ascii ''id-1'', t_filename = ascii ''notes.txt'',
          t_path = ascii ''/srv/uploads/id-1_notes.txt'', t_text = [], table_rows = [],
          summary = [], t_emd = [], t_due_date = [], t_eligibility = [],
          uploaded_at = ascii ''2024-05-12T10:00:00''\<rparr>"
proof -
  let ?f = "\<lparr>filename = ascii ''notes.txt'', stream = [104, 105]\<rparr>"
  let ?p = "ascii ''/srv/uploads/id-1_notes.txt''"
  let ?w1 = "empty_world\<lparr>uploads := (uploads empty_world)(?p \<mapsto> [104, 105])\<rparr>"
  let ?t = "\<lparr>t_id = ascii ''id-1'', t_filename = ascii ''notes.txt'',
          t_path = ?p, t_text = [], table_rows = [],
          summary = [], t_emd = [], t_due_date = [], t_eligibility = [],
          uploaded_at = ascii ''2024-05-12T10:00:00''\<rparr>"
  have s: "save_upload example_env (ascii ''id-1'') ?f empty_world = (Inr ?p, ?w1)"
    by (simp add: save_upload_def example_env_def path_join_def Let_def) (simp add: ascii_def)
  have x: "extract_by_extension example_env (extension (tables example_env) (filename ?f)) ?p ?w1
      = (([], []), ?w1)"
    by (rule extract_unrecognized) (simp add: example_env_def ext_txt ascii_eq_iff)
  have "encodable []" by (simp add: encodable_def)
  then have e: "encodable_json (tenders_dict (tenders (?w1\<lparr>tenders := AList.update (t_id ?t) ?t (tenders ?w1)\<rparr>)))"
    by (intro encodable_tenders_dict)
      (simp add: empty_world_def encodable_tender_def encodable_ascii)
  have p: "fst (put_tender example_env ?t ?w1) = Inr ()"
    unfolding put_tender_def
    by (subst save_tenders_returns [OF _ e]) (simp_all add: example_env_def)
  have "process_file example_env (ascii ''id-1'') (ascii ''2024-05-12T10:00:00'') ?f empty_world =
      (case put_tender example_env ?t ?w1 of (Inl e, w3) \<Rightarrow> (Inl e, w3) | (Inr u, w3) \<Rightarrow> (Inr ?t, w3))"
    by (rule process_file_written [OF s x]) (simp add: fallback_text_def)
  from put_then_return(3) [OF this p] show ?thesis .
qed

theorem unrecognized_extension_witness:
  "extension (tables example_env) (filename \<lparr>filename = ascii ''notes.txt'', stream = [104, 105]\<rparr>)
     \<notin> set (map ascii [''pdf'', ''docx'', ''xlsx'', ''xls'']) \<and>
   calls (snd (process_file example_env (ascii ''id-1'') (ascii ''2024-05-12T10:00:00'')
      \<lparr>filename = ascii ''notes.txt'', stream = [104, 105]\<rparr> empty_world)) = [] \<and>
   map_sum id t_text (fst (process_file example_env (ascii ''id-1'') (ascii ''2024-05-12T10:00:00'')
      \<lparr>filename = ascii ''notes.txt'', stream = [104, 105]\<rparr> empty_world)) = Inr [] \<and>
   map_sum id summary (fst (process_file example_env (ascii ''id-1'') (ascii ''2024-05-12T10:00:00'')
      \<lparr>filename = ascii ''notes.txt'', stream = [104, 105]\<rparr> empty_world)) = Inr []"
proof -
  let ?f = "\<lparr>filename = ascii ''notes.txt'', stream = [104, 105]\<rparr>"
  let ?r = "fst (process_file example_env (ascii ''id-1'') (ascii ''2024-05-12T10:00:00'') ?f empty_world)"
  have h: "extension (tables example_env) (filename ?f)
     \<notin> set (map ascii [''pdf'', ''docx'', ''xlsx'', ''xls''])"
    by (simp add: example_env_def ext_txt) (simp add: ascii_def)
  note U = unrecognized_extension [OF h, of "ascii ''id-1''" "ascii ''2024-05-12T10:00:00''" empty_world]
  obtain t where t: "?r = Inr t" using notes_returns by blast
  from U [THEN conjunct2, THEN conjunct2, THEN conjunct2, rule_format, OF t]
  have e: "t_text t = []" "summary t = []" by simp_all
  have c: "calls (snd (process_file example_env (ascii ''id-1'') (ascii ''2024-05-12T10:00:00'')
      ?f empty_world)) = []"
    using U [THEN conjunct1] by (simp add: empty_world_def)
  show ?thesis
    by (intro conjI h c) (simp_all only: t map_sum.simps id_apply e)
qed

text \<open>
  A file name with a directory part: the upload directory has no such subdirectory,
  the write of the upload raises, and \<open>process_file\<close> raises with it. No tender is built.
\<close>

theorem unrecognized_extension_counterexample:
  "extension (tables example_env) (filename \<lparr>filename = ascii ''dir/notes.txt'', stream = [104, 105]\<rparr>)
     \<notin> set (map ascii [''pdf'', ''docx'', ''xlsx'', ''xls'']) \<and>
   process_file example_env (ascii ''id-1'') (ascii ''2024-05-12T10:00:00'')
      \<lparr>filename = ascii ''dir/notes.txt'', stream = [104, 105]\<rparr> empty_world
     = (Inl FileNotFoundError, empty_world)"
proof -
  have "save_upload example_env (ascii ''id-1'') \<lparr>filename = ascii ''dir/notes.txt'', stream = [104, 105]\<rparr>
      empty_world = (Inl FileNotFoundError, empty_world)"
    by (simp add: save_upload_def example_env_def path_join_def Let_def) (simp add: ascii_def)
  then show ?thesis
    by (simp add: process_file_not_written example_env_def ext_dir_txt) (simp add: ascii_def)
qed

lemma split_chr_no_sep: "c \<notin> set s \<Longrightarrow> split_chr c s = [s]"
  by (induction s) auto

lemma split_chr_append: "c \<notin> set x \<Longrightarrow> split_chr c (x @ c # y) = x # split_chr c y"
  by (induction x) auto

lemma flatten_three_rows:
  "flatten_rows [[a1, a2], [b1, b2], [c1, c2]] =
     (a1 @ ascii '', '' @ a2) @ [10] @ (b1 @ ascii '', '' @ b2) @ [10] @ (c1 @ ascii '', '' @ c2)"
  by (simp add: flatten_rows_def)

lemma three_lines:
  assumes "10 \<notin> set l1" "10 \<notin> set l2" "10 \<notin> set l3"
  shows "split_chr 10 (l1 @ [10] @ l2 @ [10] @ l3) = [l1, l2, l3]"
  using assms by (simp add: split_chr_append split_chr_no_sep)

text \<open>
  C6. When the upload was written and the extraction selected by the extension returns
  an empty text and a non-empty list of rows, the text stored in the tender is the
  flattening of the first five rows, and the summary and the three fields are those of
  that text (all empty should the flattening be empty, in which case neither
  \<open>simple_summary\<close> nor \<open>extract_fields\<close> is run). This tender is put into the store, and
  it is the tender that \<open>process_file\<close> returns, which it does unless \<open>save_tenders\<close>
  raises. For three rows of two cells the text is the three rows, each \<open>cell, cell\<close>,
  joined by newlines; when no cell holds a newline, splitting it at the newlines gives
  these three lines.
\<close>

theorem spreadsheet_fallback_text:
  assumes "save_upload E file_id f w = (Inr p, w1)"
    and "fst (extract_by_extension E (extension (tables E) (filename f)) p w1) = ([], rows)"
    and "rows \<noteq> []"
  shows "\<exists>t. get_tender (snd (process_file E file_id now f w)) file_id = Some t \<and>
    process_file E file_id now f w =
      (case put_tender E t (snd (extract_by_extension E (extension (tables E) (filename f)) p w1)) of
         (Inl e, w3) \<Rightarrow> (Inl e, w3) | (Inr u, w3) \<Rightarrow> (Inr t, w3)) \<and>
    (\<forall>r. fst (process_file E file_id now f w) = Inr r \<longrightarrow> r = t) \<and>
    t_text t = flatten_rows rows \<and>
    summary t =
      (if flatten_rows rows = [] then [] else simple_summary (tables E) (flatten_rows rows)) \<and>
    t_emd t =
      (if flatten_rows rows = [] then [] else emd (extract_fields (tables E) (flatten_rows rows))) \<and>
    t_due_date t =
      (if flatten_rows rows = [] then [] else due_date (extract_fields (tables E) (flatten_rows rows))) \<and>
    t_eligibility t =
      (if flatten_rows rows = [] then [] else eligibility (extract_fields (tables E) (flatten_rows rows))) \<and>
    (\<forall>a1 a2 b1 b2 c1 c2. rows = [[a1, a2], [b1, b2], [c1, c2]] \<longrightarrow>
       flatten_rows rows =
         (a1 @ ascii '', '' @ a2) @ [10] @ (b1 @ ascii '', '' @ b2) @ [10] @ (c1 @ ascii '', '' @ c2) \<and>
       ((\<forall>cell\<in>set (concat rows). 10 \<notin> set cell) \<longrightarrow>
          split_chr 10 (flatten_rows rows) =
            [a1 @ ascii '', '' @ a2, b1 @ ascii '', '' @ b2, c1 @ ascii '', '' @ c2]))"
proof -
  let ?w2 = "snd (extract_by_extension E (extension (tables E) (filename f)) p w1)"
  let ?t = "\<lparr>t_id = file_id, t_filename = filename f, t_path = p,
          t_text = flatten_rows rows, table_rows = rows,
          summary = (if flatten_rows rows \<noteq> []
                     then simple_summary (tables E) (flatten_rows rows) else []),
          t_emd = (if flatten_rows rows \<noteq> []
                   then emd (extract_fields (tables E) (flatten_rows rows)) else []),
          t_due_date = (if flatten_rows rows \<noteq> []
                   then due_date (extract_fields (tables E) (flatten_rows rows)) else []),
          t_eligibility = (if flatten_rows rows \<noteq> []
                   then eligibility (extract_fields (tables E) (flatten_rows rows)) else []),
          uploaded_at = now\<rparr>"
  have x: "extract_by_extension E (extension (tables E) (filename f)) p w1 = (([], rows), ?w2)"
    using assms(2) by (simp add: prod_eq_iff)
  have t: "fallback_text [] rows = flatten_rows rows"
    using assms(3) by (simp add: fallback_text_def flatten_rows_def)
  have written: "process_file E file_id now f w =
      (case put_tender E ?t ?w2 of (Inl e, w3) \<Rightarrow> (Inl e, w3) | (Inr u, w3) \<Rightarrow> (Inr ?t, w3))"
    by (rule process_file_written [OF assms(1) x]) (simp add: t)
  have stored: "get_tender (snd (process_file E file_id now f w)) file_id = Some ?t"
    using get_after_put [of E ?t ?w2] put_then_return(1) [OF written] by simp
  have returned: "r = ?t" if "fst (process_file E file_id now f w) = Inr r" for r
    using put_then_return(2) [OF written that] .
  have "10 \<notin> set (ascii '', '')" by (simp add: ascii_def)
  then have lines: "split_chr 10 (flatten_rows [[a1, a2], [b1, b2], [c1, c2]]) =
        [a1 @ ascii '', '' @ a2, b1 @ ascii '', '' @ b2, c1 @ ascii '', '' @ c2]"
    if "\<forall>cell\<in>set (concat [[a1, a2], [b1, b2], [c1, c2]]). 10 \<notin> set cell" for a1 a2 b1 b2 c1 c2
    unfolding flatten_three_rows using that by (intro three_lines) auto
  have rest: "\<forall>a1 a2 b1 b2 c1 c2. rows = [[a1, a2], [b1, b2], [c1, c2]] \<longrightarrow>
       flatten_rows rows =
         (a1 @ ascii '', '' @ a2) @ [10] @ (b1 @ ascii '', '' @ b2) @ [10] @ (c1 @ ascii '', '' @ c2) \<and>
       ((\<forall>cell\<in>set (concat rows). 10 \<notin> set cell) \<longrightarrow>
          split_chr 10 (flatten_rows rows) =
            [a1 @ ascii '', '' @ a2, b1 @ ascii '', '' @ b2, c1 @ ascii '', '' @ c2])"
    using lines by (simp add: flatten_three_rows del: concat.simps)
  have returned': "\<forall>r. fst (process_file E file_id now f w) = Inr r \<longrightarrow> r = ?t"
    using returned by blast
  have fields: "t_text ?t = flatten_rows rows"
    "summary ?t =
      (if flatten_rows rows = [] then [] else simple_summary (tables E) (flatten_rows rows))"
    "t_emd ?t =
      (if flatten_rows rows = [] then [] else emd (extract_fields (tables E) (flatten_rows rows)))"
    "t_due_date ?t =
      (if flatten_rows rows = [] then [] else due_date (extract_fields (tables E) (flatten_rows rows)))"
    "t_eligibility ?t =
      (if flatten_rows rows = [] then [] else eligibility (extract_fields (tables E) (flatten_rows rows)))"
    by simp_all
  show ?thesis
    by (rule exI [of _ ?t]) (intro conjI stored written returned' fields rest)
qed

lemma book_ext: "extension ascii_only (ascii ''Book.XLSX'') = ascii ''xlsx''"
  by (simp add: extension_def str_lower_def ascii_def ascii_lower_def)

lemma book_saved:
  "save_upload example_env (ascii ''id-2'') \<lparr>filename = ascii ''Book.XLSX'', stream = [80, 75]\<rparr> empty_world
   = (Inr (ascii ''/srv/uploads/id-2_Book.XLSX''),
      empty_world\<lparr>uploads := (uploads empty_world)(ascii ''/srv/uploads/id-2_Book.XLSX'' \<mapsto> [80, 75])\<rparr>)"
  by (simp add: save_upload_def example_env_def path_join_def Let_def) (simp add: ascii_def)

lemma book_rows:
  "fst (extract_by_extension example_env
        (extension (tables example_env) (filename \<lparr>filename = ascii ''Book.XLSX'', stream = [80, 75]\<rparr>))
        (ascii ''/srv/uploads/id-2_Book.XLSX'')
        (empty_world\<lparr>uploads := (uploads empty_world)(ascii ''/srv/uploads/id-2_Book.XLSX'' \<mapsto> [80, 75])\<rparr>))
   = ([], [[ascii ''Item'', ascii ''Cost''], [ascii ''Pump'', ascii ''INR 75000''],
           [ascii ''Due'', ascii ''12/05/2024'']])"
  by (simp add: example_env_def book_ext extract_by_extension_def parse_xlsx_def
      Let_def ascii_eq_iff)

lemma book_flat:
  "flatten_rows [[ascii ''Item'', ascii ''Cost''], [ascii ''Pump'', ascii ''INR 75000''],
           [ascii ''Due'', ascii ''12/05/2024'']] =
   ascii ''Item, Cost'' @ [10] @ ascii ''Pump, INR 75000'' @ [10] @ ascii ''Due, 12/05/2024''"
  by (simp add: flatten_rows_def ascii_def)

lemma book_emd:
  "emd (extract_fields ascii_only
     (ascii ''Item, Cost'' @ [10] @ ascii ''Pump, INR 75000'' @ [10] @ ascii ''Due, 12/05/2024''))
   = ascii ''INR 75000''"
  unfolding emd_extract_fields by (simp add: pattern_defs char_defs search_defs)

lemma book_due:
  "due_date (extract_fields ascii_only
     (ascii ''Item, Cost'' @ [10] @ ascii ''Pump, INR 75000'' @ [10] @ ascii ''Due, 12/05/2024''))
   = ascii ''12/05/2024''"
  unfolding due_date_extract_fields by (simp add: pattern_defs char_defs search_defs)

lemma book_summary:
  "simple_summary ascii_only
     (ascii ''Item, Cost'' @ [10] @ ascii ''Pump, INR 75000'' @ [10] @ ascii ''Due, 12/05/2024'')
   = ascii ''Item, Cost'' @ [10] @ ascii ''Pump, INR 75000'' @ [10] @ ascii ''Due, 12/05/2024''"
  by (simp add: simple_summary_def strip_def re_split_def sentence_sep_re_def char_defs search_defs)

lemma book_eligibility:
  "eligibility (extract_fields ascii_only
     (ascii ''Item, Cost'' @ [10] @ ascii ''Pump, INR 75000'' @ [10] @ ascii ''Due, 12/05/2024''))
   = ascii ''Item, Cost'' @ [10] @ ascii ''Pump, INR 75000'' @ [10] @ ascii ''Due, 12/05/2024''"
  unfolding eligibility_extract_fields by (simp add: ascii_def)

lemma extract_keeps_tenders:
  "tenders (snd (extract_by_extension E ext p w)) = tenders w"
  by (simp add: extract_by_extension_def extract_text_from_pdf_def extract_text_from_docx_def
      parse_xlsx_def Let_def)

lemma book_returns:
  "\<exists>t. fst (process_file example_env (ascii ''id-2'') (ascii ''2024-05-12T10:00:00'')
      \<lparr>filename = ascii ''Book.XLSX'', stream = [80, 75]\<rparr> empty_world) = Inr t"
proof -
  let ?f = "\<lparr>filename = ascii ''Book.XLSX'', stream = [80, 75]\<rparr>"
  let ?p = "ascii ''/srv/uploads/id-2_Book.XLSX''"
  let ?w1 = "empty_world\<lparr>uploads := (uploads empty_world)(?p \<mapsto> [80, 75])\<rparr>"
  let ?rows = "[[ascii ''Item'', ascii ''Cost''], [ascii ''Pump'', ascii ''INR 75000''],
           [ascii ''Due'', ascii ''12/05/2024'']]"
  let ?flat = "ascii ''Item, Cost'' @ [10] @ ascii ''Pump, INR 75000'' @ [10] @ ascii ''Due, 12/05/2024''"
  let ?w2 = "snd (extract_by_extension example_env (extension (tables example_env) (filename ?f)) ?p ?w1)"
  let ?t = "\<lparr>t_id = ascii ''id-2'', t_filename = ascii ''Book.XLSX'', t_path = ?p,
          t_text = ?flat, table_rows = ?rows, summary = ?flat, t_emd = ascii ''INR 75000'',
          t_due_date = ascii ''12/05/2024'', t_eligibility = ?flat,
          uploaded_at = ascii ''2024-05-12T10:00:00''\<rparr>"
  have x: "extract_by_extension example_env (extension (tables example_env) (filename ?f)) ?p ?w1
      = (([], ?rows), ?w2)"
    using book_rows by (simp add: prod_eq_iff)
  have tb: "tables example_env = ascii_only" by (simp add: example_env_def)
  have fb: "fallback_text [] ?rows = ?flat"
    using book_flat by (simp add: fallback_text_def flatten_rows_def)
  have ne: "?flat \<noteq> []" by simp
  have w: "tenders ?w2 = []" by (simp add: extract_keeps_tenders empty_world_def)
  have "encodable_tender ?t"
    by (simp add: encodable_tender_def encodable_def ascii_def)
  then have e: "encodable_json (tenders_dict (tenders (?w2\<lparr>tenders := AList.update (t_id ?t) ?t (tenders ?w2)\<rparr>)))"
    by (intro encodable_tenders_dict) (simp only: w, simp add: encodable_ascii)
  have p: "fst (put_tender example_env ?t ?w2) = Inr ()"
    unfolding put_tender_def
    by (subst save_tenders_returns [OF _ e]) (simp_all add: example_env_def)
  have "process_file example_env (ascii ''id-2'') (ascii ''2024-05-12T10:00:00'') ?f empty_world =
      (case put_tender example_env ?t ?w2 of (Inl e, w3) \<Rightarrow> (Inl e, w3) | (Inr u, w3) \<Rightarrow> (Inr ?t, w3))"
    by (rule process_file_written [OF book_saved x])
      (simp add: tb fb ne book_summary book_emd book_due book_eligibility del: append.simps)
  from put_then_return(3) [OF this p] show ?thesis by blast
qed

theorem spreadsheet_fallback_text_witness:
  "save_upload example_env (ascii ''id-2'') \<lparr>filename = ascii ''Book.XLSX'', stream = [80, 75]\<rparr> empty_world
   = (Inr (ascii ''/srv/uploads/id-2_Book.XLSX''),
      empty_world\<lparr>uploads := (uploads empty_world)(ascii ''/srv/uploads/id-2_Book.XLSX'' \<mapsto> [80, 75])\<rparr>) \<and>
   fst (extract_by_extension example_env
        (extension (tables example_env) (filename \<lparr>filename = ascii ''Book.XLSX'', stream = [80, 75]\<rparr>))
        (ascii ''/srv/uploads/id-2_Book.XLSX'')
        (empty_world\<lparr>uploads := (uploads empty_world)(ascii ''/srv/uploads/id-2_Book.XLSX'' \<mapsto> [80, 75])\<rparr>))
   = ([], [[ascii ''Item'', ascii ''Cost''], [ascii ''Pump'', ascii ''INR 75000''],
           [ascii ''Due'', ascii ''12/05/2024'']]) \<and>
   map_sum id t_text (fst (process_file example_env (ascii ''id-2'') (ascii ''2024-05-12T10:00:00'')
      \<lparr>filename = ascii ''Book.XLSX'', stream = [80, 75]\<rparr> empty_world))
   = Inr (ascii ''Item, Cost'' @ [10] @ ascii ''Pump, INR 75000'' @ [10] @ ascii ''Due, 12/05/2024'') \<and>
   map_sum id t_emd (fst (process_file example_env (ascii ''id-2'') (ascii ''2024-05-12T10:00:00'')
      \<lparr>filename = ascii ''Book.XLSX'', stream = [80, 75]\<rparr> empty_world)) = Inr (ascii ''INR 75000'') \<and>
   map_sum id t_due_date (fst (process_file example_env (ascii ''id-2'') (ascii ''2024-05-12T10:00:00'')
      \<lparr>filename = ascii ''Book.XLSX'', stream = [80, 75]\<rparr> empty_world)) = Inr (ascii ''12/05/2024'') \<and>
   map_sum id (\<lambda>t. split_chr 10 (t_text t))
     (fst (process_file example_env (ascii ''id-2'') (ascii ''2024-05-12T10:00:00'')
      \<lparr>filename = ascii ''Book.XLSX'', stream = [80, 75]\<rparr> empty_world))
   = Inr [ascii ''Item, Cost'', ascii ''Pump, INR 75000'', ascii ''Due, 12/05/2024'']"
proof -
  let ?f = "\<lparr>filename = ascii ''Book.XLSX'', stream = [80, 75]\<rparr>"
  let ?p = "ascii ''/srv/uploads/id-2_Book.XLSX''"
  let ?w1 = "empty_world\<lparr>uploads := (uploads empty_world)(?p \<mapsto> [80, 75])\<rparr>"
  let ?rows = "[[ascii ''Item'', ascii ''Cost''], [ascii ''Pump'', ascii ''INR 75000''],
           [ascii ''Due'', ascii ''12/05/2024'']]"
  let ?r = "fst (process_file example_env (ascii ''id-2'') (ascii ''2024-05-12T10:00:00'') ?f empty_world)"
  have nl: "\<forall>cell\<in>set (concat ?rows). 10 \<notin> set cell" by (simp add: ascii_def)
  have ne: "flatten_rows ?rows \<noteq> []" by (simp add: book_flat)
  have tb: "tables example_env = ascii_only" by (simp add: example_env_def)
  have ok: "?rows \<noteq> []" by simp
  from spreadsheet_fallback_text [OF book_saved book_rows ok, of "ascii ''2024-05-12T10:00:00''"]
  obtain t where
    w: "process_file example_env (ascii ''id-2'') (ascii ''2024-05-12T10:00:00'') ?f empty_world =
      (case put_tender example_env t (snd (extract_by_extension example_env
            (extension (tables example_env) (filename ?f)) ?p ?w1)) of
         (Inl e, w3) \<Rightarrow> (Inl e, w3) | (Inr u, w3) \<Rightarrow> (Inr t, w3))"
    and i: "get_tender (snd (process_file example_env (ascii ''id-2'') (ascii ''2024-05-12T10:00:00'')
          ?f empty_world)) (ascii ''id-2'') = Some t"
    and t6: "\<forall>r. ?r = Inr r \<longrightarrow> r = t"
    and t1: "t_text t = flatten_rows ?rows"
    and t0: "summary t = (if flatten_rows ?rows = [] then []
          else simple_summary (tables example_env) (flatten_rows ?rows))"
    and t2: "t_emd t = (if flatten_rows ?rows = [] then []
          else emd (extract_fields (tables example_env) (flatten_rows ?rows)))"
    and t3: "t_due_date t = (if flatten_rows ?rows = [] then []
          else due_date (extract_fields (tables example_env) (flatten_rows ?rows)))"
    and t5: "t_eligibility t = (if flatten_rows ?rows = [] then []
          else eligibility (extract_fields (tables example_env) (flatten_rows ?rows)))"
    and t4: "\<forall>a1 a2 b1 b2 c1 c2. ?rows = [[a1, a2], [b1, b2], [c1, c2]] \<longrightarrow>
       flatten_rows ?rows =
         (a1 @ ascii '', '' @ a2) @ [10] @ (b1 @ ascii '', '' @ b2) @ [10] @ (c1 @ ascii '', '' @ c2) \<and>
       ((\<forall>cell\<in>set (concat ?rows). 10 \<notin> set cell) \<longrightarrow>
          split_chr 10 (flatten_rows ?rows) =
            [a1 @ ascii '', '' @ a2, b1 @ ascii '', '' @ b2, c1 @ ascii '', '' @ c2])"
    by blast
  have r: "?r = Inr t"
    using book_returns t6 by auto
  have s1: "t_text t = ascii ''Item, Cost'' @ [10] @ ascii ''Pump, INR 75000'' @ [10] @ ascii ''Due, 12/05/2024''"
    using t1 by (simp only: book_flat)
  have s2: "t_emd t = ascii ''INR 75000''"
    using t2 ne by (simp add: tb) (simp only: book_flat book_emd)
  have s3: "t_due_date t = ascii ''12/05/2024''"
    using t3 ne by (simp add: tb) (simp only: book_flat book_due)
  have "split_chr 10 (flatten_rows ?rows)
        = [ascii ''Item'' @ ascii '', '' @ ascii ''Cost'', ascii ''Pump'' @ ascii '', '' @ ascii ''INR 75000'',
           ascii ''Due'' @ ascii '', '' @ ascii ''12/05/2024'']"
    using t4 [rule_format, OF refl, THEN conjunct2, rule_format, OF nl [rule_format]] .
  moreover have "[ascii ''Item'' @ ascii '', '' @ ascii ''Cost'', ascii ''Pump'' @ ascii '', '' @ ascii ''INR 75000'',
           ascii ''Due'' @ ascii '', '' @ ascii ''12/05/2024'']
      = [ascii ''Item, Cost'', ascii ''Pump, INR 75000'', ascii ''Due, 12/05/2024'']"
    by (simp add: ascii_def)
  ultimately have "split_chr 10 (flatten_rows ?rows)
      = [ascii ''Item, Cost'', ascii ''Pump, INR 75000'', ascii ''Due, 12/05/2024'']"
    by (simp only:)
  then have s4: "split_chr 10
        (ascii ''Item, Cost'' @ [10] @ ascii ''Pump, INR 75000'' @ [10] @ ascii ''Due, 12/05/2024'')
      = [ascii ''Item, Cost'', ascii ''Pump, INR 75000'', ascii ''Due, 12/05/2024'']"
    by (simp only: book_flat)
  show ?thesis
    by (intro conjI book_saved book_rows) (simp_all only: r map_sum.simps id_apply s1 s2 s3 s4)
qed

section \<open>The order of the dashboard\<close>

lemma py_sorted_reverse_sorted:
  "sorted_wrt (\<lambda>a b. key a \<ge> key b) (py_sorted key True xs)"
proof -
  have "sorted (map key (sort_key key (rev xs)))" by simp
  then have "sorted_wrt (\<lambda>a b. key a \<le> key b) (sort_key key (rev xs))"
    by (simp add: sorted_wrt_map)
  then show ?thesis
    by (simp add: py_sorted_def sorted_wrt_rev)
qed

lemma py_sorted_mset: "mset (py_sorted key r xs) = mset xs"
  by (simp add: py_sorted_def)

lemma py_sorted_stable:
  "filter (\<lambda>x. key x = k) (py_sorted key True xs) = filter (\<lambda>x. key x = k) xs"
  by (simp add: py_sorted_def rev_filter [symmetric] sort_key_stable)

lemma update_new_key: "k \<notin> fst ` set al \<Longrightarrow> AList.update k v al = al @ [(k, v)]"
  by (induction al) auto

lemma put_tender_appends:
  "t_id t \<notin> fst ` set (tenders w) \<Longrightarrow>
   tenders (snd (put_tender E t w)) = tenders w @ [(t_id t, t)]"
  by (simp add: put_tender_tenders update_new_key)

text \<open>
  C9. In every state of the store the dashboard lists the stored tenders, each once,
  by \<open>uploaded_at\<close> in descending order, and tenders with the same \<open>uploaded_at\<close> in the
  order in which the dictionary holds them, which is the order of insertion: a tender
  with a new identifier is put last, whether \<open>save_tenders\<close> returns or raises.
\<close>

theorem listing_order:
  "sorted_wrt (\<lambda>a b. uploaded_at a \<ge> uploaded_at b) (index_tender_list w) \<and>
   mset (index_tender_list w) = mset (map snd (tenders w)) \<and>
   (\<forall>k. filter (\<lambda>t. uploaded_at t = k) (index_tender_list w)
        = filter (\<lambda>t. uploaded_at t = k) (map snd (tenders w))) \<and>
   (\<forall>t. t_id t \<notin> fst ` set (tenders w) \<longrightarrow>
        map snd (tenders (snd (put_tender E t w))) = map snd (tenders w) @ [t])"
  by (simp add: index_tender_list_def py_sorted_reverse_sorted py_sorted_mset py_sorted_stable
      put_tender_appends)

lemma example_listing:
  "index_tender_list (empty_world\<lparr>tenders :=
       [(ascii ''a'', example_tender (ascii ''a'') (ascii ''2024-05-12T10:00:00'')),
        (ascii ''b'', example_tender (ascii ''b'') (ascii ''2024-05-13T09:30:00'')),
        (ascii ''c'', example_tender (ascii ''c'') (ascii ''2024-05-12T10:00:00''))]\<rparr>)
   = [example_tender (ascii ''b'') (ascii ''2024-05-13T09:30:00''),
      example_tender (ascii ''a'') (ascii ''2024-05-12T10:00:00''),
      example_tender (ascii ''c'') (ascii ''2024-05-12T10:00:00'')]"
  by (simp add: index_tender_list_def py_sorted_def example_tender_def ascii_def)

theorem listing_order_witness:
  "index_tender_list (empty_world\<lparr>tenders :=
       [(ascii ''a'', example_tender (ascii ''a'') (ascii ''2024-05-12T10:00:00'')),
        (ascii ''b'', example_tender (ascii ''b'') (ascii ''2024-05-13T09:30:00'')),
        (ascii ''c'', example_tender (ascii ''c'') (ascii ''2024-05-12T10:00:00''))]\<rparr>)
   = [example_tender (ascii ''b'') (ascii ''2024-05-13T09:30:00''),
      example_tender (ascii ''a'') (ascii ''2024-05-12T10:00:00''),
      example_tender (ascii ''c'') (ascii ''2024-05-12T10:00:00'')] \<and>
   filter (\<lambda>t. uploaded_at t = ascii ''2024-05-12T10:00:00'')
     (index_tender_list (empty_world\<lparr>tenders :=
       [(ascii ''a'', example_tender (ascii ''a'') (ascii ''2024-05-12T10:00:00'')),
        (ascii ''b'', example_tender (ascii ''b'') (ascii ''2024-05-13T09:30:00'')),
        (ascii ''c'', example_tender (ascii ''c'') (ascii ''2024-05-12T10:00:00''))]\<rparr>))
   = [example_tender (ascii ''a'') (ascii ''2024-05-12T10:00:00''),
      example_tender (ascii ''c'') (ascii ''2024-05-12T10:00:00'')] \<and>
   ascii ''d'' \<notin> fst ` set (tenders (empty_world\<lparr>tenders :=
       [(ascii ''a'', example_tender (ascii ''a'') (ascii ''2024-05-12T10:00:00'')),
        (ascii ''b'', example_tender (ascii ''b'') (ascii ''2024-05-13T09:30:00'')),
        (ascii ''c'', example_tender (ascii ''c'') (ascii ''2024-05-12T10:00:00''))]\<rparr>)) \<and>
   map snd (tenders (snd (put_tender example_env (example_tender (ascii ''d'') (ascii ''2024-05-11T08:00:00''))
     (empty_world\<lparr>tenders :=
       [(ascii ''a'', example_tender (ascii ''a'') (ascii ''2024-05-12T10:00:00'')),
        (ascii ''b'', example_tender (ascii ''b'') (ascii ''2024-05-13T09:30:00'')),
        (ascii ''c'', example_tender (ascii ''c'') (ascii ''2024-05-12T10:00:00''))]\<rparr>))))
   = [example_tender (ascii ''a'') (ascii ''2024-05-12T10:00:00''),
      example_tender (ascii ''b'') (ascii ''2024-05-13T09:30:00''),
      example_tender (ascii ''c'') (ascii ''2024-05-12T10:00:00''),
      example_tender (ascii ''d'') (ascii ''2024-05-11T08:00:00'')]"
proof -
  let ?w = "empty_world\<lparr>tenders :=
       [(ascii ''a'', example_tender (ascii ''a'') (ascii ''2024-05-12T10:00:00'')),
        (ascii ''b'', example_tender (ascii ''b'') (ascii ''2024-05-13T09:30:00'')),
        (ascii ''c'', example_tender (ascii ''c'') (ascii ''2024-05-12T10:00:00''))]\<rparr>"
  have new: "ascii ''d'' \<notin> fst ` set (tenders ?w)" by (simp add: ascii_eq_iff)
  have id: "t_id (example_tender (ascii ''d'') (ascii ''2024-05-11T08:00:00'')) = ascii ''d''"
    by (simp add: example_tender_def)
  note L = listing_order [of ?w example_env]
  have f: "filter (\<lambda>t. uploaded_at t = ascii ''2024-05-12T10:00:00'') (index_tender_list ?w)
      = [example_tender (ascii ''a'') (ascii ''2024-05-12T10:00:00''),
         example_tender (ascii ''c'') (ascii ''2024-05-12T10:00:00'')]"
    using L [THEN conjunct2, THEN conjunct2, THEN conjunct1, rule_format,
        of "ascii ''2024-05-12T10:00:00''"]
    by (simp add: example_tender_def ascii_eq_iff)
  have p: "map snd (tenders (snd (put_tender example_env
        (example_tender (ascii ''d'') (ascii ''2024-05-11T08:00:00'')) ?w)))
      = map snd (tenders ?w) @ [example_tender (ascii ''d'') (ascii ''2024-05-11T08:00:00'')]"
    by (rule L [THEN conjunct2, THEN conjunct2, THEN conjunct2, rule_format])
      (simp only: id, rule new)
  show ?thesis
    using new by (intro conjI example_listing f) (simp_all add: p)
qed

section \<open>The summary\<close>

lemma terminator_ok:
  "atom_ok U ic (In [IChr 46, IChr 33, IChr 63]) c = (c \<in> {46, 33, 63})"
  by (auto simp: lit_ok_def ascii_letter_def)

lemma sep_match:
  "ms U False (Group 0 sentence_sep_re) (b, s) Map.empty (\<lambda>c g. Some (c, g)) =
     (if boundary U b s
      then Some ((rev (takeWhile (is_space U) s) @ b, dropWhile (is_space U) s),
                 [0 \<mapsto> takeWhile (is_space U) s])
      else None)"
proof -
  let ?k = "\<lambda>c'. Some (c', [0 \<mapsto> consumed (b, s) c'])"
  have 1: "ms U False (Group 0 sentence_sep_re) (b, s) Map.empty (\<lambda>c g. Some (c, g)) =
      (if (case b of [] \<Rightarrow> False | p # _ \<Rightarrow> p \<in> {46, 33, 63})
       then rep U False True 1 None (In [ISpace]) b s ?k else None)"
    by (simp add: sentence_sep_re_def terminator_ok del: atom_ok.simps split: list.splits)
  have 2: "rep U False True 1 None (In [ISpace]) b s ?k =
      (if 1 \<le> length (takeWhile (is_space U) s)
       then ?k (rev (takeWhile (is_space U) s) @ b, dropWhile (is_space U) s) else None)"
    using rep_greedy_total [of ?k U False 1 "In [ISpace]" b s, unfolded space_ok] by simp
  have 3: "(1 \<le> length (takeWhile (is_space U) s)) = (case s of [] \<Rightarrow> False | x # _ \<Rightarrow> is_space U x)"
    by (cases s) auto
  show ?thesis
    unfolding 1 2 3 by (simp add: boundary_def consumed_dropWhile)
qed

lemma sep_search_here:
  assumes "boundary U b s"
  shows "search_from U False sentence_sep_re b s =
     Some ((rev (takeWhile (is_space U) s) @ b, dropWhile (is_space U) s),
           [0 \<mapsto> takeWhile (is_space U) s])"
  using assms by (cases s) (simp_all add: sep_match del: ms.simps)

lemma sep_search_next:
  assumes "\<not> boundary U b (x # s)"
  shows "search_from U False sentence_sep_re b (x # s) = search_from U False sentence_sep_re (x # b) s"
  using assms by (simp add: sep_match del: ms.simps)

lemma sep_search_Nil: "search_from U False sentence_sep_re b [] = None"
  by (simp add: sep_match boundary_def del: ms.simps)

lemma sep_search_Some:
  "search_from U False sentence_sep_re b s = Some ((b', s'), g) \<Longrightarrow>
   \<exists>pre m. s = pre @ m @ s' \<and> m \<noteq> [] \<and> g 0 = Some m"
proof (induction s arbitrary: b)
  case Nil
  then show ?case by (simp add: sep_search_Nil del: search_from.simps)
next
  case (Cons x s)
  show ?case
  proof (cases "boundary U b (x # s)")
    case True
    then have sp: "is_space U x" by (simp add: boundary_def)
    from Cons.prems sep_search_here [OF True]
    have "s' = dropWhile (is_space U) (x # s)" "g 0 = Some (takeWhile (is_space U) (x # s))"
      by auto
    then show ?thesis using sp
      by (intro exI [of _ "[]"] exI [of _ "takeWhile (is_space U) (x # s)"]) simp
  next
    case False
    with Cons.prems have "search_from U False sentence_sep_re (x # b) s = Some ((b', s'), g)"
      by (simp add: sep_search_next del: search_from.simps)
    from Cons.IH [OF this] obtain pre m where "s = pre @ m @ s'" "m \<noteq> []" "g 0 = Some m"
      by blast
    then show ?thesis by (intro exI [of _ "x # pre"] exI [of _ m]) simp
  qed
qed


lemma not_boundary_dropWhile: "\<not> boundary U b (dropWhile (is_space U) s)"
proof (cases "dropWhile (is_space U) s")
  case Nil
  show ?thesis unfolding boundary_def Nil by simp
next
  case (Cons y t)
  with hd_dropWhile [of "is_space U" s] have "\<not> is_space U y" by simp
  then show ?thesis unfolding boundary_def Cons by simp
qed

lemma re_split_sentences:
  "\<not> boundary U b s \<Longrightarrow>
   \<exists>p ps. re_split_from U False sentence_sep_re b s = p # ps \<and>
          sentences U cur s = (rev cur @ p) # ps"
proof (induction s arbitrary: b cur rule: length_induct)
  case (1 s)
  show ?case
  proof (cases s)
    case Nil
    then show ?thesis by (simp add: sep_search_Nil del: search_from.simps)
  next
    case (Cons x t)
    let ?R = "search_from U False sentence_sep_re (x # b) t"
    have unfold: "re_split_from U False sentence_sep_re b (x # t) =
      (case ?R of None \<Rightarrow> [x # t]
       | Some ((b', s'), g) \<Rightarrow>
           if length s' < length (x # t)
           then take (length (x # t) - length s' - length (fmt (g 0))) (x # t)
                # re_split_from U False sentence_sep_re b' s'
           else [x # t])"
      using "1.prems" Cons
      by (subst re_split_from.simps) (simp add: sep_search_next del: search_from.simps)
    show ?thesis
    proof (cases "boundary U (x # b) t")
      case True
      let ?tw = "takeWhile (is_space U) t" and ?dw = "dropWhile (is_space U) t"
      have R: "?R = Some ((rev ?tw @ x # b, ?dw), [0 \<mapsto> ?tw])"
        by (rule sep_search_here [OF True])
      have len: "length t = length ?tw + length ?dw"
        by (simp flip: length_append)
      have "length ?dw < length s" using Cons len by simp
      with "1.IH" not_boundary_dropWhile [of U "rev ?tw @ x # b" t]
      obtain p' ps' where
        ih: "re_split_from U False sentence_sep_re (rev ?tw @ x # b) ?dw = p' # ps'"
            "sentences U [] ?dw = (rev [] @ p') # ps'"
        by blast
      have x: "x \<in> {46, 33, 63}" "case t of [] \<Rightarrow> False | y # _ \<Rightarrow> is_space U y"
        using True by (simp_all add: boundary_def)
      have "re_split_from U False sentence_sep_re b (x # t) = [x] # p' # ps'"
        unfolding unfold R using len ih(1) by (simp add: fmt_def)
      moreover have "sentences U cur (x # t) = (rev cur @ [x]) # p' # ps'"
        using x ih(2) by simp
      ultimately show ?thesis using Cons by simp
    next
      case False
      have "length t < length s" using Cons by simp
      with "1.IH" False obtain p' ps' where
        ih: "re_split_from U False sentence_sep_re (x # b) t = p' # ps'"
            "sentences U (x # cur) t = (rev (x # cur) @ p') # ps'"
        by blast
      have s: "sentences U cur (x # t) = sentences U (x # cur) t"
        using False by (auto simp: boundary_def)
      have "re_split_from U False sentence_sep_re b (x # t) = (x # p') # ps'"
      proof (cases ?R)
        case None
        with ih(1) show ?thesis unfolding unfold
          by (subst (asm) re_split_from.simps) simp
      next
        case (Some r)
        obtain b' s' g where r: "r = ((b', s'), g)" by (cases r) auto
        from sep_search_Some [OF Some [unfolded r]] obtain pre m where
          m: "t = pre @ m @ s'" "m \<noteq> []" "g 0 = Some m"
          by blast
        have lt: "length s' < length t" using m by (cases m) auto
        from ih(1) have "take (length t - length s' - length m) t
            # re_split_from U False sentence_sep_re b' s' = p' # ps'"
          using Some r lt m(3) by (subst (asm) re_split_from.simps) (simp add: fmt_def)
        moreover have "length t - length s' - length m = length pre" using m(1) by simp
        moreover have "length (x # t) - length s' - length m = Suc (length pre)" using m(1) by simp
        ultimately show ?thesis
          unfolding unfold Some r using lt m(3) by (simp add: fmt_def)
      qed
      with s ih(2) Cons show ?thesis by simp
    qed
  qed
qed


lemma strip_parts:
  "\<exists>l r. s = l @ strip U s @ r \<and> list_all (is_space U) l \<and> list_all (is_space U) r"
proof -
  let ?d = "dropWhile (is_space U) s"
  have 1: "s = takeWhile (is_space U) s @ ?d" by simp
  have 2: "?d = strip U s @ rev (takeWhile (is_space U) (rev ?d))"
    unfolding strip_def by (simp flip: rev_append)
  have 3: "s = takeWhile (is_space U) s @ strip U s @ rev (takeWhile (is_space U) (rev ?d))"
    using 1 2 by simp
  have 4: "list_all (is_space U) (takeWhile (is_space U) s)"
    "list_all (is_space U) (rev (takeWhile (is_space U) (rev ?d)))"
    by (auto simp: list_all_iff dest: set_takeWhileD)
  show ?thesis
    by (rule exI [of _ "takeWhile (is_space U) s"],
        rule exI [of _ "rev (takeWhile (is_space U) (rev ?d))"]) (intro conjI 3 4)
qed

lemma strip_ends:
  "case strip U s of [] \<Rightarrow> True | x # _ \<Rightarrow> \<not> is_space U x \<and> \<not> is_space U (last (strip U s))"
proof (cases "strip U s")
  case Nil
  then show ?thesis by simp
next
  case (Cons x t)
  let ?d = "dropWhile (is_space U) s"
  let ?e = "dropWhile (is_space U) (rev ?d)"
  have ne: "?e \<noteq> []" using Cons by (auto simp: strip_def)
  then have "\<not> is_space U (hd ?e)" by (rule hd_dropWhile)
  then have l: "\<not> is_space U (last (strip U s))"
    using ne by (simp add: strip_def last_rev)
  have "?d \<noteq> []" using ne by (auto dest: set_dropWhileD)
  then have h: "\<not> is_space U (hd ?d)" by (rule hd_dropWhile)
  obtain l r where "s = l @ strip U s @ r" "list_all (is_space U) l"
    using strip_parts by blast
  have "?d = strip U s @ rev (takeWhile (is_space U) (rev ?d))"
    unfolding strip_def by (simp flip: rev_append)
  then have "hd ?d = x" using Cons by (metis hd_append2 list.sel(1) list.distinct(1))
  with h l show ?thesis using Cons by simp
qed

lemma not_boundary_Nil: "\<not> boundary U [] s"
  by (simp add: boundary_def)

text \<open>
  C5. \<open>simple_summary\<close> strips the white space at both ends of the text, splits what
  is left into sentences, a sentence ending after a \<open>.\<close>, \<open>!\<close> or \<open>?\<close> that white space
  follows, and returns the first three sentences (all of them when there are fewer)
  joined by one space. The empty text gives the empty summary. Stripping removes white
  space only, and what it leaves neither starts nor ends with white space.
\<close>

theorem summary_is_first_three_sentences:
  "simple_summary U txt = join (ascii '' '') (take 3 (sentences U [] (strip U txt))) \<and>
   simple_summary U [] = [] \<and>
   (\<exists>l r. txt = l @ strip U txt @ r \<and> list_all (is_space U) l \<and> list_all (is_space U) r) \<and>
   (case strip U txt of [] \<Rightarrow> True
    | x # _ \<Rightarrow> \<not> is_space U x \<and> \<not> is_space U (last (strip U txt)))"
proof -
  have eq: "re_split U False sentence_sep_re s = sentences U [] s" for s
    using re_split_sentences [OF not_boundary_Nil, of U s "[]"] by (auto simp: re_split_def)
  have "simple_summary U [] = []"
    by (simp add: simple_summary_def eq strip_def)
  then show ?thesis
    using strip_parts [of "txt" U] strip_ends [of U "txt"]
    by (simp add: simple_summary_def eq)
qed

lemma ex_sentences:
  "sentences ascii_only [] (ascii ''Bids open.  Submit by post! Late bids fail?! Yes. No.'')
   = [ascii ''Bids open.'', ascii ''Submit by post!'', ascii ''Late bids fail?!'', ascii ''Yes.'', ascii ''No.'']"
  by (simp add: ascii_def is_space_def)

lemma ex_strip:
  "strip ascii_only (ascii ''  Bids open.  Submit by post! Late bids fail?! Yes. No. '')
   = ascii ''Bids open.  Submit by post! Late bids fail?! Yes. No.''"
  by (simp add: ascii_def is_space_def strip_def)

theorem summary_is_first_three_sentences_witness:
  "simple_summary ascii_only (ascii ''  Bids open.  Submit by post! Late bids fail?! Yes. No. '')
     = ascii ''Bids open. Submit by post! Late bids fail?!'' \<and>
   simple_summary ascii_only [] = []"
proof -
  let ?T = "ascii ''  Bids open.  Submit by post! Late bids fail?! Yes. No. ''"
  note S = summary_is_first_three_sentences [of ascii_only ?T]
  have "simple_summary ascii_only ?T
      = join (ascii '' '') (take 3 (sentences ascii_only [] (strip ascii_only ?T)))"
    using S [THEN conjunct1] .
  also have "\<dots> = ascii ''Bids open. Submit by post! Late bids fail?!''"
    by (simp only: ex_strip ex_sentences) (simp add: ascii_def)
  finally show ?thesis using S [THEN conjunct2, THEN conjunct1] by simp
qed

section \<open>The snapshot read back\<close>

lemma hex_val_hex_digit: "n < 16 \<Longrightarrow> hex_val (hex_digit n) = Some n"
  by (auto simp: hex_val_def hex_digit_def)

lemma decode_control: "c < 32 \<Longrightarrow> decode_uXXXX 48 48 (hex_digit (c div 16)) (hex_digit (c mod 16)) = Some c"
proof -
  assume c: "c < 32"
  then have "c div 16 < 16" by simp
  moreover have "c mod 16 < 16" by simp
  moreover have "hex_val 48 = Some 0" by (simp add: hex_val_def)
  ultimately show ?thesis by (simp add: decode_uXXXX_def hex_val_hex_digit)
qed

lemma join_surrogates_low: "uni < 55296 \<Longrightarrow> join_surrogates uni s = Some (uni, 0)"
  by (simp add: join_surrogates_def)

lemma scanstring_escape_chr:
  "scanstring (escape_chr c @ rest) = cons_chr c (scanstring rest)"
proof -
  consider (bs) "c = 92" | (q) "c = 34" | (b) "c = 8" | (f) "c = 12" | (n) "c = 10"
    | (r) "c = 13" | (t) "c = 9"
    | (ctl) "c < 32" "c \<noteq> 8" "c \<noteq> 12" "c \<noteq> 10" "c \<noteq> 13" "c \<noteq> 9"
    | (other) "32 \<le> c" "c \<noteq> 92" "c \<noteq> 34"
    by linarith
  then show ?thesis
  proof cases
    case ctl
    then have e: "escape_chr c = [92, 117, 48, 48, hex_digit (c div 16), hex_digit (c mod 16)]"
      by (simp add: escape_chr_def)
    show ?thesis
      using ctl(1) by (simp add: e decode_control join_surrogates_low)
  qed (simp_all add: escape_chr_def backslash_def)
qed

lemma scanstring_escaped:
  "scanstring (concat (map escape_chr s) @ 34 # rest) = Some (s, rest)"
  by (induction s) (simp_all add: scanstring_escape_chr cons_chr_def del: scanstring.simps(2), simp)


lemma skip_ws_indent: "skip_ws (newline_indent l @ s) = skip_ws s"
  by (simp add: skip_ws_def newline_indent_def json_ws_def dropWhile_append)

lemma skip_ws_stop: "\<not> json_ws c \<Longrightarrow> skip_ws (c # s) = c # s"
  by (simp add: skip_ws_def)

lemma skip_ws_space: "skip_ws (32 # s) = skip_ws s"
  by (simp add: skip_ws_def json_ws_def)

lemma skip_ws_Nil: "skip_ws [] = []"
  by (simp add: skip_ws_def)

lemma encode_basestring_Cons:
  "encode_basestring s = 34 # concat (map escape_chr s) @ [34]"
  by (simp add: encode_basestring_def)

lemma iterencode_head:
  "plain v \<Longrightarrow> \<exists>c r. iterencode lv v = c # r \<and> c \<in> {34, 91, 123}"
  by (cases v) (auto simp: encode_basestring_Cons ascii_def)

lemma skip_ws_iterencode:
  assumes "plain v"
  shows "skip_ws (iterencode lv v @ s) = iterencode lv v @ s"
proof -
  from iterencode_head [OF assms, of lv] obtain c r where
    "iterencode lv v = c # r" "c \<in> {34, 91, 123}" by blast
  then show ?thesis by (auto simp: skip_ws_stop json_ws_def)
qed

lemma dict_of_acc:
  "distinct (map fst (acc @ kvs)) \<Longrightarrow>
   foldl (\<lambda>d kv. AList.update (fst kv) (snd kv) d) acc kvs = acc @ kvs"
proof (induction kvs arbitrary: acc)
  case Nil
  then show ?case by simp
next
  case (Cons kv kvs)
  from Cons.prems have "fst kv \<notin> fst ` set acc" by auto
  then have "AList.update (fst kv) (snd kv) acc = acc @ [kv]"
    by (simp add: update_new_key)
  with Cons.IH [of "acc @ [kv]"] Cons.prems show ?case by simp
qed

lemma dict_of_distinct: "distinct (map fst kvs) \<Longrightarrow> dict_of kvs = kvs"
  using dict_of_acc [of "[]" kvs] by (simp add: dict_of_def)

lemma length_join_ge:
  "sep \<noteq> [] \<Longrightarrow> sum_list (map length xs) + length xs \<le> Suc (length (join sep xs))"
proof (induction sep xs rule: join.induct)
  case (3 sep x y ys)
  then have "1 \<le> length sep" by (cases sep) auto
  with 3 show ?case by simp
qed simp_all


lemma parse_array_items:
  assumes "\<And>x n rest. x \<in> set xs \<Longrightarrow> fuel x \<le> n \<Longrightarrow>
             scan_once n (iterencode L x @ rest) = Some (x, rest)"
    and "list_all plain xs" and "xs \<noteq> []"
    and "sum_list (map (\<lambda>x. Suc (fuel x)) xs) \<le> n"
  shows "parse_array n acc (join (44 # newline_indent L) (map (iterencode L) xs)
           @ newline_indent lv @ 93 # rest) = Some (JList (acc @ xs), rest)"
  using assms
proof (induction xs arbitrary: n acc)
  case Nil
  then show ?case by simp
next
  case (Cons x xs)
  from Cons.prems(4) obtain m where n: "n = Suc m" and m: "fuel x \<le> m"
    "sum_list (map (\<lambda>x. Suc (fuel x)) xs) \<le> m"
    by (cases n) auto
  have sx: "\<And>rest. scan_once m (iterencode L x @ rest) = Some (x, rest)"
    using Cons.prems(1) m(1) by simp
  show ?case
  proof (cases xs)
    case Nil
    show ?thesis
      unfolding n Nil
      by (simp add: sx skip_ws_indent skip_ws_stop json_ws_def)
  next
    case (Cons y ys)
    have py: "plain y" using Cons.prems(2) Cons by simp
    have rest_eq: "join (44 # newline_indent L) (map (iterencode L) xs)
        = iterencode L y @ (if ys = [] then [] else (44 # newline_indent L)
            @ join (44 # newline_indent L) (map (iterencode L) ys))"
      unfolding Cons by (simp add: join_Cons)
    have sk: "skip_ws (newline_indent L @ join (44 # newline_indent L) (map (iterencode L) xs)
          @ newline_indent lv @ 93 # rest)
        = join (44 # newline_indent L) (map (iterencode L) xs) @ newline_indent lv @ 93 # rest"
      unfolding skip_ws_indent rest_eq using skip_ws_iterencode [OF py] by simp
    have ih: "parse_array m (acc @ [x]) (join (44 # newline_indent L) (map (iterencode L) xs)
           @ newline_indent lv @ 93 # rest) = Some (JList ((acc @ [x]) @ xs), rest)"
      using Cons.prems(1,2) m(2) Cons by (intro Cons.IH) simp_all
    have whole: "join (44 # newline_indent L) (map (iterencode L) (x # xs))
        = iterencode L x @ 44 # newline_indent L @ join (44 # newline_indent L) (map (iterencode L) xs)"
      unfolding Cons by simp
    show ?thesis
      unfolding n whole
      using ih sk by (simp add: sx skip_ws_stop json_ws_def)
  qed
qed

lemma parse_object_items:
  assumes "\<And>kv n rest. kv \<in> set kvs \<Longrightarrow> fuel (snd kv) \<le> n \<Longrightarrow>
             scan_once n (iterencode L (snd kv) @ rest) = Some (snd kv, rest)"
    and "list_all (\<lambda>kv. plain (snd kv)) kvs" and "kvs \<noteq> []"
    and "sum_list (map (\<lambda>kv. Suc (fuel (snd kv))) kvs) \<le> n"
    and "34 # s = join (44 # newline_indent L)
           (map (\<lambda>kv. encode_basestring (fst kv) @ ascii '': '' @ iterencode L (snd kv)) kvs)
           @ newline_indent lv @ 125 # rest"
  shows "parse_object n acc s = Some (JDict (dict_of (acc @ kvs)), rest)"
  using assms
proof (induction kvs arbitrary: n acc s)
  case Nil
  then show ?case by simp
next
  case (Cons kv kvs)
  let ?enc = "\<lambda>kv. encode_basestring (fst kv) @ ascii '': '' @ iterencode L (snd kv)"
  let ?sep = "44 # newline_indent L"
  from Cons.prems(4) obtain m where n: "n = Suc m" and m: "fuel (snd kv) \<le> m"
    "sum_list (map (\<lambda>kv. Suc (fuel (snd kv))) kvs) \<le> m"
    by (cases n) auto
  have pv: "plain (snd kv)" using Cons.prems(2) by simp
  have sv: "\<And>rest. scan_once m (iterencode L (snd kv) @ rest) = Some (snd kv, rest)"
    using Cons.prems(1) m(1) by simp
  define T where "T = (if kvs = [] then [] else ?sep @ join ?sep (map ?enc kvs))
      @ newline_indent lv @ 125 # rest"
  have s: "s = concat (map escape_chr (fst kv)) @ 34 # 58 # 32 # iterencode L (snd kv) @ T"
    using Cons.prems(5) by (simp add: join_Cons T_def encode_basestring_Cons ascii_def)
  have val: "scan_once m (skip_ws (32 # iterencode L (snd kv) @ T)) = Some (snd kv, T)"
    by (simp add: skip_ws_space skip_ws_iterencode [OF pv] sv)
  show ?case
  proof (cases kvs)
    case Nil
    then have T: "skip_ws T = 125 # rest"
      by (simp add: T_def skip_ws_indent skip_ws_stop json_ws_def)
    show ?thesis
      unfolding n s using val T Nil
      by (simp add: scanstring_escaped skip_ws_stop json_ws_def del: scanstring.simps)
  next
    case (Cons kv2 kvs2)
    obtain s2 where s2: "34 # s2 = join ?sep (map ?enc kvs) @ newline_indent lv @ 125 # rest"
      unfolding Cons by (simp add: join_Cons encode_basestring_Cons)
    have T: "T = 44 # newline_indent L @ 34 # s2"
      using s2 Cons by (simp add: T_def)
    have ih: "parse_object m (acc @ [kv]) s2 = Some (JDict (dict_of ((acc @ [kv]) @ kvs)), rest)"
      using Cons.prems(1,2) m(2) Cons s2 by (intro Cons.IH) simp_all
    show ?thesis
      unfolding n s using val ih
      by (simp add: T scanstring_escaped skip_ws_stop skip_ws_indent json_ws_def
          del: scanstring.simps)
  qed
qed


lemma scan_once_iterencode:
  "plain v \<Longrightarrow> fuel v \<le> n \<Longrightarrow> scan_once n (iterencode lv v @ rest) = Some (v, rest)"
proof (induction v arbitrary: n lv rest)
  case (JStr s)
  then obtain m where "n = Suc m" by (cases n) auto
  then show ?case
    by (simp add: encode_basestring_Cons scanstring_escaped del: scanstring.simps)
next
  case (JList xs)
  from JList.prems(2) obtain m where n: "n = Suc m"
    and m: "sum_list (map (\<lambda>x. Suc (fuel x)) xs) \<le> m"
    by (cases n) auto
  show ?case
  proof (cases xs)
    case Nil
    then show ?thesis by (simp add: n ascii_def skip_ws_stop json_ws_def)
  next
    case (Cons y ys)
    have py: "plain y" using JList.prems(1) Cons by simp
    let ?body = "join (44 # newline_indent (Suc lv)) (map (iterencode (Suc lv)) xs)
        @ newline_indent lv @ 93 # rest"
    have items: "parse_array m [] ?body = Some (JList ([] @ xs), rest)"
    proof (rule parse_array_items)
      show "scan_once k (iterencode (Suc lv) x @ r) = Some (x, r)"
        if "x \<in> set xs" "fuel x \<le> k" for x k r
        using that JList.prems(1) by (intro JList.IH) (auto simp: list_all_iff)
      show "list_all plain xs" using JList.prems(1) by simp
      show "xs \<noteq> []" using Cons by simp
      show "sum_list (map (\<lambda>x. Suc (fuel x)) xs) \<le> m" by fact
    qed
    obtain c r where cr: "?body = c # r" "c \<in> {34, 91, 123}"
      using iterencode_head [OF py, of "Suc lv"] unfolding Cons by (auto simp: join_Cons)
    then have sk: "skip_ws (newline_indent (Suc lv) @ ?body) = c # r" "c \<noteq> 93"
      by (auto simp: skip_ws_indent skip_ws_stop json_ws_def)
    have items': "parse_array m [] (c # r) = Some (JList xs, rest)"
      using items unfolding cr(1) by simp
    have enc: "iterencode lv (JList xs) @ rest = 91 # newline_indent (Suc lv) @ ?body"
      using Cons by simp
    show ?thesis
      unfolding enc n by (simp add: sk items')
  qed
next
  case (JDict kvs)
  from JDict.prems(2) obtain m where n: "n = Suc m"
    and m: "sum_list (map (\<lambda>kv. Suc (fuel (snd kv))) kvs) \<le> m"
    by (cases n) auto
  show ?case
  proof (cases kvs)
    case Nil
    then show ?thesis by (simp add: n ascii_def skip_ws_stop json_ws_def dict_of_def)
  next
    case (Cons kv kvs')
    let ?enc = "\<lambda>kv. encode_basestring (fst kv) @ ascii '': '' @ iterencode (Suc lv) (snd kv)"
    let ?body = "join (44 # newline_indent (Suc lv)) (map ?enc kvs) @ newline_indent lv @ 125 # rest"
    obtain s where s: "34 # s = ?body"
      unfolding Cons by (simp add: join_Cons encode_basestring_Cons)
    have items: "parse_object m [] s = Some (JDict (dict_of ([] @ kvs)), rest)"
    proof (rule parse_object_items [where L = "Suc lv" and lv = lv])
      show "scan_once k (iterencode (Suc lv) (snd kv) @ r) = Some (snd kv, r)"
        if "kv \<in> set kvs" "fuel (snd kv) \<le> k" for kv k r
      proof -
        have "snd kv \<in> Basic_BNFs.snds kv" by (cases kv) simp
        moreover have "plain (snd kv)" using that(1) JDict.prems(1) by (auto simp: list_all_iff)
        ultimately show ?thesis using that by (intro JDict.IH)
      qed
      show "list_all (\<lambda>kv. plain (snd kv)) kvs" using JDict.prems(1) by simp
      show "kvs \<noteq> []" using Cons by simp
      show "sum_list (map (\<lambda>kv. Suc (fuel (snd kv))) kvs) \<le> m" by fact
      show "34 # s = ?body" by fact
    qed
    have d: "dict_of kvs = kvs" using JDict.prems(1) by (simp add: dict_of_distinct)
    have sk: "skip_ws (newline_indent (Suc lv) @ ?body) = 34 # s"
      unfolding s [symmetric] by (simp add: skip_ws_indent skip_ws_stop json_ws_def)
    have items': "parse_object m [] s = Some (JDict kvs, rest)"
      using items d by simp
    have enc: "iterencode lv (JDict kvs) @ rest = 123 # newline_indent (Suc lv) @ ?body"
      using Cons by simp
    show ?thesis
      unfolding enc n by (simp add: sk items')
  qed
qed simp_all


lemma sum_fuel_le:
  assumes "\<And>x. x \<in> set xs \<Longrightarrow> f x \<le> length (e x)"
  shows "sum_list (map (\<lambda>x. Suc (f x)) xs) \<le> Suc (length (join (44 # newline_indent L) (map e xs)))"
proof -
  have "sum_list (map (\<lambda>x. Suc (f x)) xs) = sum_list (map f xs) + length xs"
    by (induction xs) simp_all
  also have "sum_list (map f xs) \<le> sum_list (map (\<lambda>x. length (e x)) xs)"
    using assms by (intro sum_list_mono) simp
  also have "sum_list (map (\<lambda>x. length (e x)) xs) + length xs
      = sum_list (map length (map e xs)) + length (map e xs)"
    by (simp add: comp_def)
  also have "\<dots> \<le> Suc (length (join (44 # newline_indent L) (map e xs)))"
    by (rule length_join_ge) simp
  finally show ?thesis by simp
qed

lemma fuel_le_length: "plain v \<Longrightarrow> fuel v \<le> length (iterencode lv v)"
proof (induction v arbitrary: lv)
  case (JStr s)
  then show ?case by (simp add: encode_basestring_Cons)
next
  case (JList xs)
  have "fuel x \<le> length (iterencode (Suc lv) x)" if "x \<in> set xs" for x
    using that JList.prems by (intro JList.IH) (auto simp: list_all_iff)
  from sum_fuel_le [of xs fuel "iterencode (Suc lv)" "Suc lv", OF this]
  show ?case by (simp add: newline_indent_def ascii_def)
next
  case (JDict kvs)
  let ?enc = "\<lambda>kv. encode_basestring (fst kv) @ ascii '': '' @ iterencode (Suc lv) (snd kv)"
  have "fuel (snd kv) \<le> length (?enc kv)" if "kv \<in> set kvs" for kv
  proof -
    have "snd kv \<in> Basic_BNFs.snds kv" by (cases kv) simp
    moreover have "plain (snd kv)" using that JDict.prems by (auto simp: list_all_iff)
    ultimately have "fuel (snd kv) \<le> length (iterencode (Suc lv) (snd kv))"
      using that by (intro JDict.IH)
    then show ?thesis by simp
  qed
  from sum_fuel_le [of kvs "\<lambda>kv. fuel (snd kv)" ?enc "Suc lv", OF this]
  show ?case by (simp add: newline_indent_def ascii_def)
qed simp_all

lemma json_round_trip: "plain v \<Longrightarrow> json_loads (json_dumps v) = Some v"
  using scan_once_iterencode [of v "Suc (length (iterencode 0 v))" 0 "[]"]
    skip_ws_iterencode [of v 0 "[]"] fuel_le_length [of v 0]
  by (simp add: json_loads_def json_dumps_def skip_ws_Nil)

lemma those_map_Some: "those (map (\<lambda>x. Some (f x)) xs) = Some (map f xs)"
  by (induction xs) simp_all

lemma strs_of_row: "strs_of (JList (map JStr row)) = Some row"
  using those_map_Some [of id row] by (simp add: strs_of_def str_of_def comp_def)

lemma rows_of_rows: "rows_of (Some (JList (map (\<lambda>row. JList (map JStr row)) rows))) = Some rows"
  using those_map_Some [of id rows] by (simp add: rows_of_def comp_def strs_of_row)

lemma dict_tender_inverse: "dict_tender (tender_dict t) = Some t"
  by (simp add: dict_tender_def tender_dict_def ascii_eq_iff str_of_def rows_of_rows)

lemma dict_tenders_inverse: "dict_tenders (tenders_dict ts) = Some ts"
  using those_map_Some [of id ts]
  by (simp add: dict_tenders_def tenders_dict_def comp_def case_prod_beta dict_tender_inverse)

lemma plain_tender_dict: "plain (tender_dict t)"
  by (simp add: tender_dict_def ascii_eq_iff list_all_iff)

lemma plain_tenders_dict: "distinct (map fst ts) \<Longrightarrow> plain (tenders_dict ts)"
  by (simp add: tenders_dict_def comp_def case_prod_beta list_all_iff plain_tender_dict)

text \<open>
  A tender whose text is a lone surrogate: \<open>save_tenders\<close> raises when it comes to that
  string, the file holds what was written before it, and the start of the process cannot
  read this file.
\<close>

lemma surrogate_save:
  "save_tenders example_env (empty_world\<lparr>tenders :=
      [(ascii ''a'', (example_tender (ascii ''a'') (ascii ''2024-05-12T10:00:00''))\<lparr>t_text := [55296]\<rparr>)]\<rparr>)
   = (Inl UnicodeEncodeError,
      empty_world\<lparr>tenders :=
        [(ascii ''a'', (example_tender (ascii ''a'') (ascii ''2024-05-12T10:00:00''))\<lparr>t_text := [55296]\<rparr>)],
        data_file := Some (ascii ''{'' @ [10] @ ascii ''  \"a\": {'' @ [10] @ ascii ''    \"id\": \"a\",'' @ [10]
          @ ascii ''    \"filename\": \"a.pdf\",'' @ [10] @ ascii ''    \"path\": \"/srv/uploads/a.pdf\",'' @ [10]
          @ ascii ''    \"text\": '')\<rparr>)"
  by (simp add: save_tenders_def example_env_def empty_world_def example_tender_def tenders_dict_def
      tender_dict_def with_buf_def encode_basestring_def escape_chr_def newline_indent_def
      encodable_def ascii_def Let_def replicate_num)

lemma surrogate_load:
  "load_tenders (empty_world\<lparr>data_file :=
       Some (ascii ''{'' @ [10] @ ascii ''  \"a\": {'' @ [10] @ ascii ''    \"id\": \"a\",'' @ [10]
          @ ascii ''    \"filename\": \"a.pdf\",'' @ [10] @ ascii ''    \"path\": \"/srv/uploads/a.pdf\",'' @ [10]
          @ ascii ''    \"text\": '')\<rparr>) = None"
  by (simp add: load_tenders_def empty_world_def json_loads_def ascii_def skip_ws_def json_ws_def
      cons_chr_def literal_def match_number_def digit09_def)

text \<open>When \<open>save_tenders\<close> returns, the file is read back as the tenders that were saved.\<close>

lemma load_written:
  assumes "distinct (map fst (tenders w))" "save_tenders E w = (Inr u, w1)"
    "data_file w' = data_file w1"
  shows "load_tenders w' = Some (tenders w)"
  using assms(1,3) save_tenders_Inr [OF assms(2)]
  by (simp add: load_tenders_def json_round_trip plain_tenders_dict dict_tenders_inverse)

lemma put_tender_distinct:
  "distinct (map fst (tenders w)) \<Longrightarrow> distinct (map fst (tenders (snd (put_tender E t w))))"
  by (simp add: put_tender_tenders distinct_update)

lemma process_file_stores:
  assumes "fst (process_file E file_id now f w) = Inr r"
  shows "get_tender (snd (process_file E file_id now f w)) file_id = Some r"
proof -
  obtain x w1 where s: "save_upload E file_id f w = (x, w1)" by (cases "save_upload E file_id f w")
  show ?thesis
  proof (cases x)
    case (Inl e)
    then show ?thesis using s assms by (simp add: process_file_not_written)
  next
    case (Inr p)
    obtain txt0 rows w2 where
      x: "extract_by_extension E (extension (tables E) (filename f)) p w1 = ((txt0, rows), w2)"
      by (metis prod.exhaust)
    note w = process_file_written [OF s [unfolded Inr] x refl, of now]
    from put_then_return(2) [OF w assms] have "t_id r = file_id" by simp
    then show ?thesis
      using put_then_return(1) [OF w] put_then_return(2) [OF w assms] get_after_put [of E r w2]
      by simp
  qed
qed

text \<open>
  C8. After a tender is put into the store, looking up its identifier returns that
  tender, whether \<open>save_tenders\<close> returns or raises, and a tender that \<open>process_file\<close>
  returns is in the store under its identifier. When the identifiers in the store are
  distinct, as they are in a dictionary, and \<open>save_tenders\<close> returns, then in every
  state in which \<open>tenders.json\<close> is as \<open>save_tenders\<close> left it, whatever the dictionary
  in memory holds, the start of the process reads from the file the tenders that were
  saved, under the same identifiers, in the same order and with every field unchanged:
  the text \<open>json.dump\<close> writes is read back by \<open>json.load\<close> as the value that was
  written. This holds after every put that returns, and a put keeps the identifiers
  distinct.
\<close>

theorem store_round_trip:
  "get_tender (snd (put_tender E t w)) (t_id t) = Some t \<and>
   (\<forall>r. fst (process_file E file_id now f w) = Inr r \<longrightarrow>
      get_tender (snd (process_file E file_id now f w)) file_id = Some r) \<and>
   (distinct (map fst (tenders w)) \<longrightarrow>
      distinct (map fst (tenders (snd (put_tender E t w)))) \<and>
      (\<forall>w1 w'. save_tenders E w = (Inr (), w1) \<and> data_file w' = data_file w1 \<longrightarrow>
         tenders w1 = tenders w \<and> load_tenders w' = Some (tenders w)) \<and>
      (\<forall>w1 w'. put_tender E t w = (Inr (), w1) \<and> data_file w' = data_file w1 \<longrightarrow>
         load_tenders w' = Some (tenders w1) \<and>
         Option.bind (load_tenders w') (\<lambda>ts. map_of ts (t_id t)) = Some t))"
proof -
  have s: "tenders w1 = tenders w \<and> load_tenders w' = Some (tenders w)"
    if "distinct (map fst (tenders w))" "save_tenders E w = (Inr (), w1)"
      "data_file w' = data_file w1" for w1 w'
    using load_written [OF that] save_tenders_keeps(1) [of E w] that(2) by simp
  have p: "load_tenders w' = Some (tenders w1) \<and>
         Option.bind (load_tenders w') (\<lambda>ts. map_of ts (t_id t)) = Some t"
    if "distinct (map fst (tenders w))" "put_tender E t w = (Inr (), w1)"
      "data_file w' = data_file w1" for w1 w'
  proof -
    let ?w = "w\<lparr>tenders := AList.update (t_id t) t (tenders w)\<rparr>"
    have d: "distinct (map fst (tenders ?w))" using that(1) by (simp add: distinct_update)
    have "save_tenders E ?w = (Inr (), w1)" using that(2) by (simp add: put_tender_def)
    from load_written [OF d this that(3)] put_tender_tenders [of E t w] that(2)
    have l: "load_tenders w' = Some (tenders w1)" by simp
    have "map_of (tenders w1) (t_id t) = Some t"
      using get_after_put [of E t w] that(2) by (simp add: get_tender_def)
    with l show ?thesis by simp
  qed
  have 2: "\<forall>r. fst (process_file E file_id now f w) = Inr r \<longrightarrow>
      get_tender (snd (process_file E file_id now f w)) file_id = Some r"
    using process_file_stores by blast
  have 3: "distinct (map fst (tenders w)) \<longrightarrow>
      distinct (map fst (tenders (snd (put_tender E t w)))) \<and>
      (\<forall>w1 w'. save_tenders E w = (Inr (), w1) \<and> data_file w' = data_file w1 \<longrightarrow>
         tenders w1 = tenders w \<and> load_tenders w' = Some (tenders w)) \<and>
      (\<forall>w1 w'. put_tender E t w = (Inr (), w1) \<and> data_file w' = data_file w1 \<longrightarrow>
         load_tenders w' = Some (tenders w1) \<and>
         Option.bind (load_tenders w') (\<lambda>ts. map_of ts (t_id t)) = Some t)"
    using s p put_tender_distinct [of w E t] by blast
  show ?thesis
    by (intro conjI get_after_put 2 3)
qed

theorem store_round_trip_witness:
  "distinct (map fst (tenders (empty_world\<lparr>tenders :=
      [(ascii ''a'', (example_tender (ascii ''a'') (ascii ''2024-05-12T10:00:00''))
          \<lparr>t_text := [34, 92, 10, 1, 8377], table_rows := [[ascii ''x'', []], []]\<rparr>)]\<rparr>))) \<and>
   fst (save_tenders example_env (empty_world\<lparr>tenders :=
      [(ascii ''a'', (example_tender (ascii ''a'') (ascii ''2024-05-12T10:00:00''))
          \<lparr>t_text := [34, 92, 10, 1, 8377], table_rows := [[ascii ''x'', []], []]\<rparr>)]\<rparr>)) = Inr () \<and>
   load_tenders (empty_world\<lparr>data_file := data_file (snd (save_tenders example_env
      (empty_world\<lparr>tenders :=
      [(ascii ''a'', (example_tender (ascii ''a'') (ascii ''2024-05-12T10:00:00''))
          \<lparr>t_text := [34, 92, 10, 1, 8377], table_rows := [[ascii ''x'', []], []]\<rparr>)]\<rparr>)))\<rparr>)
     = Some [(ascii ''a'', (example_tender (ascii ''a'') (ascii ''2024-05-12T10:00:00''))
          \<lparr>t_text := [34, 92, 10, 1, 8377], table_rows := [[ascii ''x'', []], []]\<rparr>)] \<and>
   get_tender (snd (put_tender example_env (example_tender (ascii ''b'') (ascii ''2024-05-13T09:30:00''))
      (empty_world\<lparr>tenders :=
      [(ascii ''a'', (example_tender (ascii ''a'') (ascii ''2024-05-12T10:00:00''))
          \<lparr>t_text := [34, 92, 10, 1, 8377], table_rows := [[ascii ''x'', []], []]\<rparr>)]\<rparr>)))
      (ascii ''b'')
     = Some (example_tender (ascii ''b'') (ascii ''2024-05-13T09:30:00'')) \<and>
   save_tenders example_env empty_world = (Inr (), empty_world\<lparr>data_file := Some (ascii ''{}'')\<rparr>) \<and>
   load_tenders (empty_world\<lparr>data_file := Some (ascii ''{}'')\<rparr>) = Some []"
proof -
  let ?w = "empty_world\<lparr>tenders :=
      [(ascii ''a'', (example_tender (ascii ''a'') (ascii ''2024-05-12T10:00:00''))
          \<lparr>t_text := [34, 92, 10, 1, 8377], table_rows := [[ascii ''x'', []], []]\<rparr>)]\<rparr>"
  let ?t = "example_tender (ascii ''b'') (ascii ''2024-05-13T09:30:00'')"
  have d: "distinct (map fst (tenders ?w))" by simp
  have d0: "distinct (map fst (tenders empty_world))" by (simp add: empty_world_def)
  have i: "t_id ?t = ascii ''b''" by (simp add: example_tender_def)
  have "encodable [34, 92, 10, 1, 8377]" by (simp add: encodable_def)
  then have "encodable_json (tenders_dict (tenders ?w))"
    by (intro encodable_tenders_dict)
      (simp add: encodable_tender_def example_tender_def encodable_ascii, simp add: encodable_def)
  then have r: "save_tenders example_env ?w = (Inr (), snd (save_tenders example_env ?w))"
    by (subst save_tenders_returns) (simp_all add: example_env_def save_tenders_returns)
  have e: "save_tenders example_env empty_world = (Inr (), empty_world\<lparr>data_file := Some (ascii ''{}'')\<rparr>)"
    by (subst save_tenders_returns)
      (simp_all add: example_env_def empty_world_def tenders_dict_def json_dumps_def)
  note R = store_round_trip [of example_env ?t ?w "ascii ''id-1''" "ascii ''2024''"
      "\<lparr>filename = ascii ''notes.txt'', stream = []\<rparr>"]
  note R0 = store_round_trip [of example_env ?t empty_world "ascii ''id-1''" "ascii ''2024''"
      "\<lparr>filename = ascii ''notes.txt'', stream = []\<rparr>"]
  have 1: "load_tenders (empty_world\<lparr>data_file := data_file (snd (save_tenders example_env ?w))\<rparr>)
      = Some (tenders ?w)"
    using R [THEN conjunct2, THEN conjunct2, rule_format, OF d, THEN conjunct2, THEN conjunct1,
        rule_format, of "snd (save_tenders example_env ?w)"
          "empty_world\<lparr>data_file := data_file (snd (save_tenders example_env ?w))\<rparr>"] r
    by simp
  have 2: "get_tender (snd (put_tender example_env ?t ?w)) (ascii ''b'') = Some ?t"
    using R [THEN conjunct1] unfolding i .
  have 3: "load_tenders (empty_world\<lparr>data_file := Some (ascii ''{}'')\<rparr>) = Some (tenders empty_world)"
    using R0 [THEN conjunct2, THEN conjunct2, rule_format, OF d0, THEN conjunct2, THEN conjunct1,
        rule_format, of "empty_world\<lparr>data_file := Some (ascii ''{}'')\<rparr>"
          "empty_world\<lparr>data_file := Some (ascii ''{}'')\<rparr>"] e
    by simp
  have 4: "tenders empty_world = []" by (simp add: empty_world_def)
  have 5: "fst (save_tenders example_env ?w) = Inr ()" using r by (metis fst_conv)
  have 6: "tenders ?w = [(ascii ''a'', (example_tender (ascii ''a'') (ascii ''2024-05-12T10:00:00''))
          \<lparr>t_text := [34, 92, 10, 1, 8377], table_rows := [[ascii ''x'', []], []]\<rparr>)]"
    by simp
  show ?thesis
    by (intro conjI d 5 1 [unfolded 6] 2 e 3 [unfolded 4])
qed

section \<open>The extractor on the texts of the scenarios\<close>

lemma scenario_1_emd:
  "emd (extract_fields U (ascii ''EMD: Rs. 50,000. Submission date: 12/05/2024. Eligible bidders must be registered vendors...''))
     = ascii ''Rs. 50,000.''"
  unfolding emd_extract_fields by (simp add: pattern_defs char_defs search_defs)

lemma scenario_1_due_date:
  "due_date (extract_fields U (ascii ''EMD: Rs. 50,000. Submission date: 12/05/2024. Eligible bidders must be registered vendors...''))
     = ascii ''12/05/2024''"
  unfolding due_date_extract_fields by (simp add: pattern_defs char_defs search_defs)


lemma lower_case_marker_emd:
  "emd (extract_fields U (ascii ''total cost inr 75000'')) = []"
  unfolding emd_extract_fields by (simp add: pattern_defs char_defs search_defs)

lemma lower_case_marker_after_EMD:
  "emd (extract_fields U (ascii ''EMD total cost inr 75000'')) = ascii ''inr 75000''"
  unfolding emd_extract_fields by (simp add: pattern_defs char_defs search_defs)

lemma lower_case_marker_no_indicator:
  "\<not> has_deposit_indicator U (ascii ''total cost inr 75000'')"
  by (simp add: has_deposit_indicator_def starts_ci_def char_defs)



text \<open>
  C1, as the program has it. For the text
  \<open>EMD: Rs. 50,000. Submission date: 12/05/2024. Eligible bidders must be registered vendors...\<close>
  \<open>extract_fields\<close> returns the deposit amount \<open>Rs. 50,000.\<close> and the due date
  \<open>12/05/2024\<close>. The deposit amount is the marker \<open>Rs.\<close>, a space and the numeric
  token \<open>50,000.\<close>: the numeric token is the longest run of digits, commas and full
  stops, so it takes the full stop that ends the sentence.
\<close>

theorem scenario_1_fields:
  "emd (extract_fields U (ascii ''EMD: Rs. 50,000. Submission date: 12/05/2024. Eligible bidders must be registered vendors...''))
     = ascii ''Rs. 50,000.'' \<and>
   due_date (extract_fields U (ascii ''EMD: Rs. 50,000. Submission date: 12/05/2024. Eligible bidders must be registered vendors...''))
     = ascii ''12/05/2024''"
  by (simp add: scenario_1_emd scenario_1_due_date)

theorem scenario_1_fields_witness:
  "emd (extract_fields ascii_only (ascii ''EMD: Rs. 50,000. Submission date: 12/05/2024. Eligible bidders must be registered vendors...''))
     = [82, 115, 46, 32, 53, 48, 44, 48, 48, 48, 46] \<and>
   due_date (extract_fields ascii_only (ascii ''EMD: Rs. 50,000. Submission date: 12/05/2024. Eligible bidders must be registered vendors...''))
     = [49, 50, 47, 48, 53, 47, 50, 48, 50, 52]"
  using scenario_1_fields [of ascii_only] by (simp add: ascii_def)

text \<open>
  The deposit amount of that text is not \<open>Rs. 50,000\<close> without the final full stop.
\<close>

theorem scenario_1_deposit_counterexample:
  "emd (extract_fields ascii_only (ascii ''EMD: Rs. 50,000. Submission date: 12/05/2024. Eligible bidders must be registered vendors...''))
     \<noteq> ascii ''Rs. 50,000''"
  using scenario_1_emd [of ascii_only] by (simp add: ascii_def)

text \<open>
  C10. The fallback search for a currency marker is case-sensitive, the search after a
  deposit indicator is not: the text \<open>total cost inr 75000\<close> has no deposit-indicator
  phrase and its deposit amount is empty, while the same text after \<open>EMD\<close> has the
  deposit amount \<open>inr 75000\<close>.
\<close>

theorem fallback_is_case_sensitive:
  "\<not> has_deposit_indicator U (ascii ''total cost inr 75000'') \<and>
   emd (extract_fields U (ascii ''total cost inr 75000'')) = [] \<and>
   emd (extract_fields U (ascii ''EMD total cost inr 75000'')) = ascii ''inr 75000''"
  by (simp add: lower_case_marker_emd lower_case_marker_after_EMD lower_case_marker_no_indicator)

theorem fallback_is_case_sensitive_witness:
  "emd (extract_fields ascii_only (ascii ''total cost inr 75000'')) = [] \<and>
   emd (extract_fields ascii_only (ascii ''EMD total cost inr 75000''))
     = [105, 110, 114, 32, 55, 53, 48, 48, 48]"
  using fallback_is_case_sensitive [of ascii_only] by (simp add: ascii_def)



end
